theory Spec2Isabelle
  imports Complex_Main "HOL-Library.Multiset"
begin

section \<open>Data model of the puzzle (src/src/main.tsx)\<close>

datatype Direction = UP | DOWN | LEFT | RIGHT

datatype GameStatus = SELECTING | PLAYING | SOLVED | TIME_UP

text \<open>
  \<^verbatim>\<open>type TileValue = number | null\<close>. Tile numbers are whole numbers throughout the
  program, so \<open>Num\<close> carries an \<open>int\<close>. \<open>Undefined\<close> is what JavaScript yields when an
  array is read at an index it does not have; it can be written back into the array by a swap.
\<close>

datatype TileValue = Num int | Null | Undefined

text \<open>
  \<^verbatim>\<open>type BoardLayout = TileValue[]\<close>. A JavaScript array is its indexed elements
  (\<open>elems\<close>, indices \<open>0 .. length - 1\<close>) together with the properties stored under keys
  that are not array indices (\<open>props\<close>; the program can only create them with a negative
  whole number as key). The newest binding of a key is first. The arrays of the program have
  at most a few dozen slots; the limit \<open>2^32 - 1\<close> on the length of a JavaScript array is
  not modelled.
\<close>

record BoardLayout =
  elems :: "TileValue list"
  props :: "(int \<times> TileValue) list"

text \<open>\<^verbatim>\<open>a[i]\<close> as an expression: a read at an index or key the array lacks gives \<open>undefined\<close>.\<close>

definition arr_get :: "BoardLayout \<Rightarrow> int \<Rightarrow> TileValue" where
  "arr_get a i =
     (if 0 \<le> i then
        (if i < int (length (elems a)) then elems a ! nat i else Undefined)
      else (case map_of (props a) i of Some v \<Rightarrow> v | None \<Rightarrow> Undefined))"

text \<open>
  \<^verbatim>\<open>a[i] = v\<close>: inside the array the slot is overwritten; at an index past the end the
  array is extended (the slots in between read as \<open>undefined\<close>); at a negative key an
  ordinary property is set and the elements stay as they are.
\<close>

definition arr_set :: "BoardLayout \<Rightarrow> int \<Rightarrow> TileValue \<Rightarrow> BoardLayout" where
  "arr_set a i v =
     (if 0 \<le> i then
        (if i < int (length (elems a)) then a\<lparr>elems := (elems a)[nat i := v]\<rparr>
         else a\<lparr>elems := elems a @ replicate (nat i - length (elems a)) Undefined @ [v]\<rparr>)
      else a\<lparr>props := (i, v) # props a\<rparr>)"

text \<open>
  \<^verbatim>\<open>[a[i], a[j]] = [a[j], a[i]]\<close>: the right-hand side is read first, then \<open>a[i]\<close> is
  written, then \<open>a[j]\<close>.
\<close>

definition arr_swap :: "BoardLayout \<Rightarrow> int \<Rightarrow> int \<Rightarrow> BoardLayout" where
  "arr_swap a i j =
     (let vj = arr_get a j; vi = arr_get a i
      in arr_set (arr_set a i vj) j vi)"

text \<open>\<^verbatim>\<open>[...board]\<close> copies the indexed elements only.\<close>

definition spread :: "BoardLayout \<Rightarrow> BoardLayout" where
  "spread a = \<lparr>elems = elems a, props = []\<rparr>"

text \<open>\<^verbatim>\<open>board.indexOf(v)\<close>: the first index holding \<open>v\<close>, or \<open>-1\<close>.\<close>

fun indexOf :: "TileValue list \<Rightarrow> TileValue \<Rightarrow> int" where
  "indexOf [] v = -1"
| "indexOf (x # xs) v =
     (if x = v then 0
      else (let r = indexOf xs v in if r = -1 then -1 else r + 1))"

text \<open>
  The remainder operator \<^verbatim>\<open>%\<close> of JavaScript on whole numbers with a divisor other than
  zero: the result has the sign of the dividend. \<^verbatim>\<open>Math.floor(a / b)\<close> is \<open>a div b\<close>.
\<close>

definition js_rem :: "int \<Rightarrow> int \<Rightarrow> int" where
  "js_rem a b = sgn a * (\<bar>a\<bar> mod \<bar>b\<bar>)"

text \<open>
  \<^verbatim>\<open>Array.from({ length: totalTiles }, (_, i) => i + 1)\<close> followed by
  \<^verbatim>\<open>a[totalTiles - 1] = null\<close>, as both \<open>shuffleBoard\<close> and \<open>handleSolve\<close> build the
  solved layout.
\<close>

definition solvedLayout :: "int \<Rightarrow> BoardLayout" where
  "solvedLayout totalTiles =
     arr_set \<lparr>elems = map (\<lambda>i. Num (int i + 1)) [0..<nat totalTiles], props = []\<rparr>
       (totalTiles - 1) Null"

section \<open>isSolved\<close>

text \<open>
  The loop \<^verbatim>\<open>for (let i = 0; i < currentBoard.length - 1; i++)\<close> with its early
  \<^verbatim>\<open>return false\<close>, then the test of the last slot.
\<close>

function isSolved_loop :: "nat \<Rightarrow> BoardLayout \<Rightarrow> bool" where
  "isSolved_loop i currentBoard =
     (if int i < int (length (elems currentBoard)) - 1 then
        (if arr_get currentBoard (int i) \<noteq> Num (int i + 1) then False
         else isSolved_loop (Suc i) currentBoard)
      else arr_get currentBoard (int (length (elems currentBoard)) - 1) = Null)"
  by pat_completeness auto
termination
  by (relation "measure (\<lambda>(i, b). length (elems b) - i)") auto

declare isSolved_loop.simps [simp del]

definition isSolved :: "BoardLayout \<Rightarrow> bool" where
  "isSolved currentBoard = isSolved_loop 0 currentBoard"

section \<open>shuffleBoard\<close>

text \<open>
  The legal directions at the blank slot, in the order the source pushes them. The loop body
  runs only when \<open>s\<close> is not zero (it runs \<open>s * s * 10\<close> times).
\<close>

definition possibleMoves :: "int \<Rightarrow> int \<Rightarrow> Direction list" where
  "possibleMoves s blankIndex =
     (let x = js_rem blankIndex s; y = blankIndex div s
      in (if y > 0 then [DOWN] else [])
       @ (if y < s - 1 then [UP] else [])
       @ (if x > 0 then [RIGHT] else [])
       @ (if x < s - 1 then [LEFT] else []))"

text \<open>
  A value of \<^verbatim>\<open>Math.random()\<close> is a double that is at least 0 and less than 1; the
  largest double below 1 is \<^verbatim>\<open>1 - 2^-53\<close>. Doubles are fractions, so the value is a
  \<open>rat\<close>.
\<close>

definition mathRandom :: "rat \<Rightarrow> bool" where
  "mathRandom r \<longleftrightarrow> 0 \<le> r \<and> r \<le> 1 - 1 / 2 ^ 53"

text \<open>
  \<^verbatim>\<open>Math.floor(Math.random() * possibleMoves.length)\<close>. The product of two doubles is
  the exact product \<open>p\<close> rounded to the nearest double, ties to the even one, and rounding
  never passes a whole number; so the floor of the rounded product is the floor of \<open>p\<close>,
  except where \<open>p\<close> is below a whole number \<open>k\<close> by at most half the gap between \<open>k\<close>
  and the double before it, where the product rounds to \<open>k\<close> itself. The double before 1
  is \<^verbatim>\<open>1 - 2^-53\<close>, before 2 it is \<^verbatim>\<open>2 - 2^-52\<close>, before 3 and before 4 it is
  \<^verbatim>\<open>3 - 2^-51\<close> and \<^verbatim>\<open>4 - 2^-51\<close>. The list has at most four entries, so the
  product is below 4.
\<close>

definition floorOfProduct :: "rat \<Rightarrow> nat \<Rightarrow> int" where
  "floorOfProduct r n =
     (let p = r * of_nat n
      in if 1 - 1 / 2 ^ 54 \<le> p \<and> p < 1 then 1
         else if 2 - 1 / 2 ^ 53 \<le> p \<and> p < 2 then 2
         else if 3 - 1 / 2 ^ 52 \<le> p \<and> p < 3 then 3
         else if 4 - 1 / 2 ^ 52 \<le> p \<and> p < 4 then 4
         else \<lfloor>p\<rfloor>)"

text \<open>
  The products from which the rounded product has a floor of at least \<open>k\<close>: the whole
  number \<open>k\<close> less the half gap below it (nothing is less for 0).
\<close>

definition roundingPoint :: "nat \<Rightarrow> rat" where
  "roundingPoint k =
     (if k = 0 then 0
      else if k = 1 then 1 - 1 / 2 ^ 54
      else if k = 2 then 2 - 1 / 2 ^ 53
      else of_nat k - 1 / 2 ^ 52)"

text \<open>
  \<^verbatim>\<open>possibleMoves[Math.floor(Math.random() * possibleMoves.length)]\<close>, with the value
  \<open>r\<close> of \<^verbatim>\<open>Math.random()\<close>. A read outside the list gives \<open>undefined\<close> (\<open>None\<close>).
\<close>

definition pickMove :: "Direction list \<Rightarrow> rat \<Rightarrow> Direction option" where
  "pickMove pm r =
     (let i = floorOfProduct r (length pm)
      in if 0 \<le> i \<and> i < int (length pm) then Some (pm ! nat i) else None)"

definition targetOf :: "int \<Rightarrow> int \<Rightarrow> Direction option \<Rightarrow> int" where
  "targetOf s blankIndex randomMove =
     (case randomMove of
        None \<Rightarrow> -1
      | Some UP \<Rightarrow> blankIndex + s
      | Some DOWN \<Rightarrow> blankIndex - s
      | Some LEFT \<Rightarrow> blankIndex + 1
      | Some RIGHT \<Rightarrow> blankIndex - 1)"

text \<open>One iteration of the loop, on the pair \<open>(newBoard, blankIndex)\<close>.\<close>

definition shuffleStep :: "int \<Rightarrow> rat \<Rightarrow> BoardLayout \<times> int \<Rightarrow> BoardLayout \<times> int" where
  "shuffleStep s r st =
     (let newBoard = fst st; blankIndex = snd st;
          randomMove = pickMove (possibleMoves s blankIndex) r;
          targetIndex = targetOf s blankIndex randomMove
      in (arr_swap newBoard blankIndex targetIndex, targetIndex))"

text \<open>
  The loop: \<open>n\<close> iterations are left, and the \<open>k\<close>-th value of \<^verbatim>\<open>Math.random()\<close> is
  \<open>rnd k\<close>; each iteration draws once.
\<close>

fun walk :: "(nat \<Rightarrow> rat) \<Rightarrow> int \<Rightarrow> nat \<Rightarrow> nat \<Rightarrow> BoardLayout \<times> int \<Rightarrow> BoardLayout \<times> int" where
  "walk rnd s k 0 st = st"
| "walk rnd s k (Suc n) st = walk rnd s (Suc k) n (shuffleStep s (rnd k) st)"

text \<open>One run of the body of \<open>shuffleBoard\<close> up to the test, started at draw \<open>k\<close>.\<close>

definition attempt :: "(nat \<Rightarrow> rat) \<Rightarrow> int \<Rightarrow> nat \<Rightarrow> BoardLayout" where
  "attempt rnd s k =
     (let totalTiles = s * s
      in fst (walk rnd s k (nat (s * s * 10)) (solvedLayout totalTiles, totalTiles - 1)))"

text \<open>
  \<open>shuffleBoard\<close> calls itself again while the walk ends on the solved layout, with the draws
  that follow. A run that never ends is \<open>None\<close>.
\<close>

partial_function (option) shuffleBoard :: "(nat \<Rightarrow> rat) \<Rightarrow> int \<Rightarrow> nat \<Rightarrow> BoardLayout option" where
  "shuffleBoard rnd s k =
     (if isSolved (attempt rnd s k) then shuffleBoard rnd s (k + nat (s * s * 10))
      else Some (attempt rnd s k))"

declare shuffleBoard.simps [code]

section \<open>The session and its handlers\<close>

text \<open>
  The state of the \<open>App\<close> component. Every handler runs on the committed state and its
  updates are applied together; \<open>moves\<close> and \<open>time\<close> are JavaScript numbers that hold
  whole numbers.
\<close>

record session =
  status :: GameStatus
  imageSrc :: "string option"
  size_st :: int
  board :: BoardLayout
  moves :: int
  time :: int

definition initial :: session where
  "initial = \<lparr>status = SELECTING, imageSrc = None, size_st = 3,
               board = \<lparr>elems = [], props = []\<rparr>, moves = 0, time = 0\<rparr>"

definition timeLimit :: "session \<Rightarrow> int" where
  "timeLimit st = size_st st * size_st st * 10"

text \<open>
  \<open>handleGameStart\<close> queues \<^verbatim>\<open>setImageSrc(img)\<close> and \<^verbatim>\<open>setSize(level)\<close> before it
  calls \<open>shuffleBoard\<close>. When \<open>shuffleBoard\<close> gives no board (its recursion ends in a
  stack overflow, and the handler ends with that error) the two queued updates are still
  committed and the rest of the handler has not run.
\<close>

definition handleGameStart :: "(nat \<Rightarrow> rat) \<Rightarrow> nat \<Rightarrow> string \<Rightarrow> int \<Rightarrow> session \<Rightarrow> session" where
  "handleGameStart rnd k img level st =
     (case shuffleBoard rnd level k of
        None \<Rightarrow> st\<lparr>imageSrc := Some img, size_st := level\<rparr>
      | Some b \<Rightarrow> st\<lparr>imageSrc := Some img, size_st := level, board := b,
                     moves := 0, time := 0, status := PLAYING\<rparr>)"

definition handleNewGame :: "session \<Rightarrow> session" where
  "handleNewGame st = st\<lparr>status := SELECTING, imageSrc := None\<rparr>"

text \<open>
  \<open>handleReset\<close> calls \<open>shuffleBoard\<close> first: when that gives no board, nothing has
  been queued and the session stays as it is.
\<close>

definition handleReset :: "(nat \<Rightarrow> rat) \<Rightarrow> nat \<Rightarrow> session \<Rightarrow> session" where
  "handleReset rnd k st =
     (case shuffleBoard rnd (size_st st) k of
        None \<Rightarrow> st
      | Some b \<Rightarrow> st\<lparr>board := b, moves := 0, time := 0, status := PLAYING\<rparr>)"

definition handleSolve :: "session \<Rightarrow> session" where
  "handleSolve st =
     st\<lparr>board := solvedLayout (size_st st * size_st st), status := SOLVED\<rparr>"

text \<open>
  With \<open>size = 0\<close> the coordinates are \<open>NaN\<close> and the comparison with \<open>1\<close> is false; for
  any other size they are whole numbers.
\<close>

definition handleTileClick :: "int \<Rightarrow> session \<Rightarrow> session" where
  "handleTileClick tileIndex st =
     (if status st \<noteq> PLAYING then st
      else
        let blankIndex = indexOf (elems (board st)) Null
        in if blankIndex = -1 then st
           else
             let tileX = js_rem tileIndex (size_st st);
                 tileY = tileIndex div size_st st;
                 blankX = js_rem blankIndex (size_st st);
                 blankY = blankIndex div size_st st;
                 isAdjacent = (size_st st \<noteq> 0 \<and> \<bar>tileX - blankX\<bar> + \<bar>tileY - blankY\<bar> = 1)
             in if isAdjacent then
                  st\<lparr>board := arr_swap (spread (board st)) tileIndex blankIndex,
                     moves := moves st + 1\<rparr>
                else st)"

text \<open>
  The timer effect: the interval exists only while the status is \<open>PLAYING\<close>; one tick runs
  the updater of \<open>setTime\<close>.
\<close>

definition timerTick :: "session \<Rightarrow> session" where
  "timerTick st =
     (if status st \<noteq> PLAYING then st
      else if time st + 1 \<ge> timeLimit st then st\<lparr>status := TIME_UP, time := timeLimit st\<rparr>
      else st\<lparr>time := time st + 1\<rparr>)"

text \<open>The effect on \<open>[board, status]\<close> that runs after a render.\<close>

definition solvedEffect :: "session \<Rightarrow> session" where
  "solvedEffect st =
     (if status st = PLAYING \<and> isSolved (board st) then st\<lparr>status := SOLVED\<rparr> else st)"

section \<open>Events and reachable sessions\<close>

text \<open>
  The two event sources while a game is on: the interval's tick and a click on a tile. After
  a click the component renders again and the effect on \<open>[board, status]\<close> runs.
\<close>

datatype event = Tick | Click int

fun step :: "event \<Rightarrow> session \<Rightarrow> session" where
  "step Tick st = timerTick st"
| "step (Click tileIndex) st = solvedEffect (handleTileClick tileIndex st)"

text \<open>
  The sessions the interface can produce. While the status is \<open>SELECTING\<close> only the image
  selector is rendered, whose button starts a game with a chosen image and a level of 3, 4
  or 5. Otherwise the three buttons and the tiles are rendered; the tile showing the value
  \<open>v\<close> (not \<open>null\<close>) calls \<open>handleTileClick\<close> with \<open>board.indexOf(v)\<close>. The interval
  ticks only while the status is \<open>PLAYING\<close>.
\<close>

inductive reachable :: "session \<Rightarrow> bool" where
  reach_initial: "reachable initial"
| reach_start:
    "reachable st \<Longrightarrow> status st = SELECTING \<Longrightarrow> level \<in> {3, 4, 5} \<Longrightarrow> img \<noteq> [] \<Longrightarrow>
     \<forall>n. mathRandom (rnd n) \<Longrightarrow>
     reachable (solvedEffect (handleGameStart rnd k img level st))"
| reach_newGame:
    "reachable st \<Longrightarrow> status st \<noteq> SELECTING \<Longrightarrow> reachable (handleNewGame st)"
| reach_reset:
    "reachable st \<Longrightarrow> status st \<noteq> SELECTING \<Longrightarrow> \<forall>n. mathRandom (rnd n) \<Longrightarrow>
     reachable (solvedEffect (handleReset rnd k st))"
| reach_solve:
    "reachable st \<Longrightarrow> status st \<noteq> SELECTING \<Longrightarrow> reachable (solvedEffect (handleSolve st))"
| reach_click:
    "reachable st \<Longrightarrow> status st \<noteq> SELECTING \<Longrightarrow> v \<in> set (elems (board st)) \<Longrightarrow> v \<noteq> Null \<Longrightarrow>
     reachable (step (Click (indexOf (elems (board st)) v)) st)"
| reach_tick:
    "reachable st \<Longrightarrow> status st = PLAYING \<Longrightarrow> reachable (step Tick st)"

section \<open>Notions of the specification\<close>

text \<open>
  The Manhattan distance of two slots of a board of width \<open>s\<close>, with the coordinates of the
  data model: \<open>x = index % size\<close>, \<open>y = index / size\<close> (integer division).
\<close>

definition manhattan :: "int \<Rightarrow> int \<Rightarrow> int \<Rightarrow> int" where
  "manhattan s a b = \<bar>a mod s - b mod s\<bar> + \<bar>a div s - b div s\<bar>"

text \<open>
  A legal move (glossary): sliding the tile of a slot at Manhattan distance 1 from the empty
  marker into the empty slot. \<open>slideTile\<close> is the board after the slide.
\<close>

definition legalSlide :: "int \<Rightarrow> BoardLayout \<Rightarrow> int \<Rightarrow> bool" where
  "legalSlide s b t \<longleftrightarrow>
     0 \<le> t \<and> t < int (length (elems b)) \<and> Null \<in> set (elems b) \<and>
     manhattan s t (indexOf (elems b) Null) = 1"

definition slideTile :: "BoardLayout \<Rightarrow> int \<Rightarrow> BoardLayout" where
  "slideTile b t =
     (let e = indexOf (elems b) Null
      in b\<lparr>elems := (elems b)[nat t := Null, nat e := elems b ! nat t]\<rparr>)"

inductive slides :: "int \<Rightarrow> BoardLayout \<Rightarrow> BoardLayout \<Rightarrow> bool" for s :: int where
  slides_refl: "slides s b b"
| slides_step: "slides s a b \<Longrightarrow> legalSlide s b t \<Longrightarrow> slides s a (slideTile b t)"

text \<open>
  One iteration of the shuffle walk as the specification describes it: the directions the
  empty slot \<open>index\<close> can be swapped toward, each with the slot it designates, and the
  swap with the slot of the direction picked by the random value \<open>r\<close>.
\<close>

definition specTargets :: "int \<Rightarrow> int \<Rightarrow> (Direction \<times> int) list" where
  "specTargets s index =
     (let x = index mod s; y = index div s
      in (if y > 0 then [(DOWN, index - s)] else [])
       @ (if y < s - 1 then [(UP, index + s)] else [])
       @ (if x > 0 then [(RIGHT, index - 1)] else [])
       @ (if x < s - 1 then [(LEFT, index + 1)] else []))"

definition specStep :: "int \<Rightarrow> rat \<Rightarrow> BoardLayout \<times> int \<Rightarrow> BoardLayout \<times> int" where
  "specStep s r st =
     (let b = fst st; index = snd st;
          ts = specTargets s index;
          target = snd (ts ! nat (floorOfProduct r (length ts)))
      in (b\<lparr>elems := (elems b)[nat index := elems b ! nat target,
                                nat target := elems b ! nat index]\<rparr>,
          target))"

text \<open>
  The board invariant of the data model: the slots hold the tile identifiers
  \<open>1 .. size\<^sup>2 - 1\<close>, each once, and one empty marker, in some order.
\<close>

definition boardInvariant :: "int \<Rightarrow> BoardLayout \<Rightarrow> bool" where
  "boardInvariant s b \<longleftrightarrow> mset (elems b) = mset (map Num [1..s * s - 1]) + {#Null#}"

text \<open>
  What holds of \<open>(newBoard, blankIndex)\<close> before and after every iteration of the walk.
\<close>

definition walkInv :: "int \<Rightarrow> BoardLayout \<times> int \<Rightarrow> bool" where
  "walkInv s st \<longleftrightarrow>
     boardInvariant s (fst st) \<and> 0 \<le> snd st \<and> snd st < s * s \<and>
     elems (fst st) ! nat (snd st) = Null \<and>
     slides s (solvedLayout (s * s)) (fst st)"

text \<open>What holds of every reachable session, first without and then with the effect's part.\<close>

definition reachInv0 :: "session \<Rightarrow> bool" where
  "reachInv0 st \<longleftrightarrow>
     size_st st \<in> {3, 4, 5} \<and> 0 \<le> time st \<and> 0 \<le> moves st \<and>
     (status st = PLAYING \<longrightarrow> time st < timeLimit st) \<and>
     (status st \<noteq> SELECTING \<longrightarrow>
        time st \<le> timeLimit st \<and> boardInvariant (size_st st) (board st))"

definition reachInv :: "session \<Rightarrow> bool" where
  "reachInv st \<longleftrightarrow> reachInv0 st \<and> (status st = PLAYING \<longrightarrow> \<not> isSolved (board st))"

text \<open>
  Where a game that started at time 0 in the session \<open>st\<close> stands after \<open>n\<close> ticks.
\<close>

definition tickState :: "session \<Rightarrow> nat \<Rightarrow> session \<Rightarrow> bool" where
  "tickState st n st' \<longleftrightarrow>
     status st' = SOLVED
     \<or> (int n < timeLimit st \<and> status st' = PLAYING \<and> time st' = int n)
     \<or> (timeLimit st \<le> int n \<and> status st' = TIME_UP \<and> time st' = timeLimit st)"

section \<open>Concrete inputs\<close>

text \<open>Two sequences of values of \<^verbatim>\<open>Math.random()\<close> and a session of a 3 by 3 game.\<close>

definition halves :: "nat \<Rightarrow> rat" where
  "halves k = 1 / 2"

definition backAndForth :: "nat \<Rightarrow> rat" where
  "backAndForth k = (if even k then 0 else 3 / 8)"

definition playing3 :: session where
  "playing3 =
     \<lparr>status = PLAYING, imageSrc = Some ''data:image/png;base64,AAAA'', size_st = 3,
      board = \<lparr>elems = [Num 1, Num 2, Num 3, Num 4, Num 5, Num 6, Null, Num 7, Num 8],
                props = []\<rparr>,
      moves = 0, time = 0\<rparr>"

definition blankAtZero :: session where
  "blankAtZero =
     \<lparr>status = PLAYING, imageSrc = Some ''data:image/png;base64,AAAA'', size_st = 3,
      board = \<lparr>elems = [Null, Num 2, Num 3, Num 1, Num 5, Num 6, Num 4, Num 7, Num 8],
                props = []\<rparr>,
      moves = 2, time = 0\<rparr>"

text \<open>
  A 5 by 5 game right after its start with the values \<open>halves\<close>, and the session left
  when that game has run out of time, "new game" was chosen, and a start at level 3 drew the
  values \<open>backAndForth\<close>.
\<close>

definition playing5 :: session where
  "playing5 =
     \<lparr>status = PLAYING, imageSrc = Some ''data:image/png;base64,AAAA'', size_st = 5,
      board = \<lparr>elems = [Num 1, Num 2, Num 3, Num 4, Num 5, Num 6, Num 7, Num 8, Num 9, Num 10,
                         Num 11, Num 12, Num 13, Num 14, Num 15, Num 16, Num 17, Num 18, Num 19,
                         Num 20, Null, Num 21, Num 22, Num 23, Num 24],
                props = []\<rparr>,
      moves = 0, time = 0\<rparr>"

definition staleTimer :: session where
  "staleTimer = playing5\<lparr>status := SELECTING, size_st := 3, time := 250\<rparr>"

text \<open>A 3 by 3 game one move away from the solved layout.\<close>

definition almostSolved :: session where
  "almostSolved =
     playing3\<lparr>board := \<lparr>elems = [Num 1, Num 2, Num 3, Num 4, Num 5, Num 6, Num 7, Null, Num 8],
                          props = []\<rparr>, moves := 1\<rparr>"

section \<open>Facts about arrays and indexOf\<close>

lemma arr_get_in: "0 \<le> i \<Longrightarrow> i < int (length (elems a)) \<Longrightarrow> arr_get a i = elems a ! nat i"
  by (simp add: arr_get_def)

lemma arr_set_in:
  "0 \<le> i \<Longrightarrow> i < int (length (elems a)) \<Longrightarrow> arr_set a i v = a\<lparr>elems := (elems a)[nat i := v]\<rparr>"
  by (simp add: arr_set_def)

lemma arr_swap_in:
  "0 \<le> i \<Longrightarrow> i < int (length (elems a)) \<Longrightarrow> 0 \<le> j \<Longrightarrow> j < int (length (elems a)) \<Longrightarrow>
   arr_swap a i j = a\<lparr>elems := (elems a)[nat i := elems a ! nat j, nat j := elems a ! nat i]\<rparr>"
  by (simp add: arr_swap_def Let_def arr_get_in arr_set_in)

lemma indexOf_ge: "- 1 \<le> indexOf xs v"
  by (induction xs) (auto simp: Let_def)

lemma indexOf_absent: "v \<notin> set xs \<Longrightarrow> indexOf xs v = - 1"
  by (induction xs) auto

lemma indexOf_nth:
  "indexOf xs v \<noteq> - 1 \<Longrightarrow>
   0 \<le> indexOf xs v \<and> indexOf xs v < int (length xs) \<and> xs ! nat (indexOf xs v) = v"
proof (induction xs)
  case Nil
  then show ?case by simp
next
  case (Cons x xs)
  show ?case
  proof (cases "x = v")
    case True
    then show ?thesis by simp
  next
    case False
    with Cons.prems have ne: "indexOf xs v \<noteq> - 1"
      by (auto simp: Let_def split: if_splits)
    from Cons.IH [OF ne] False ne show ?thesis
      by (simp add: Let_def nat_add_distrib)
  qed
qed

lemma indexOf_present: "v \<in> set xs \<Longrightarrow> indexOf xs v \<noteq> - 1"
proof (induction xs)
  case Nil
  then show ?case by simp
next
  case (Cons x xs)
  have "- 1 \<le> indexOf xs v" by (rule indexOf_ge)
  with Cons show ?case by (auto simp: Let_def)
qed

lemma indexOf_unique:
  "count_list xs v = 1 \<Longrightarrow> i < length xs \<Longrightarrow> xs ! i = v \<Longrightarrow> indexOf xs v = int i"
proof (induction xs arbitrary: i)
  case Nil
  then show ?case by simp
next
  case (Cons x xs)
  show ?case
  proof (cases "x = v")
    case True
    with Cons.prems have "count_list xs v = 0" by simp
    then have "v \<notin> set xs" by (simp add: count_list_0_iff)
    with Cons.prems have "i = 0" by (cases i) auto
    with True show ?thesis by simp
  next
    case False
    with Cons.prems obtain j where j: "i = Suc j" by (cases i) auto
    with Cons.prems False have "indexOf xs v = int j" by (intro Cons.IH) auto
    with False j show ?thesis by (simp add: Let_def)
  qed
qed

section \<open>Coordinates of slots\<close>

lemma js_rem_nonneg: "0 \<le> a \<Longrightarrow> 0 < s \<Longrightarrow> js_rem a s = a mod s"
  by (cases "a = 0") (simp_all add: js_rem_def)

lemma slot_divmod:
  "0 < s \<Longrightarrow> 0 \<le> x \<Longrightarrow> x < s \<Longrightarrow> (s * y + x) div s = y \<and> (s * y + x) mod s = (x::int)"
  by simp

lemma slot_bounds:
  assumes "0 < s" "0 \<le> x" "x < s" "0 \<le> y" "y < s"
  shows "0 \<le> s * y + x \<and> s * y + x < s * (s::int)"
proof -
  have "s * (y + 1) \<le> s * s" using assms by (intro mult_left_mono) auto
  then have "s * y + x < s * s" using assms by (simp add: algebra_simps)
  moreover have "0 \<le> s * y" using assms by simp
  ultimately show ?thesis using assms by simp
qed

lemma slot_coords:
  assumes "0 < s" "0 \<le> e" "e < s * (s::int)"
  shows "0 \<le> e mod s \<and> e mod s < s \<and> 0 \<le> e div s \<and> e div s < s"
proof -
  have m: "0 \<le> e mod s" "e mod s < s" using assms(1) by simp_all
  have eq: "s * (e div s) + e mod s = e" by (rule mult_div_mod_eq)
  have "e div s < s"
  proof (rule ccontr)
    assume "\<not> e div s < s"
    then have "s * s \<le> s * (e div s)" using assms(1) by (intro mult_left_mono) auto
    with eq m assms(3) show False by linarith
  qed
  moreover have "0 \<le> e div s" using assms by (simp add: pos_imp_zdiv_nonneg_iff)
  ultimately show ?thesis using m by simp
qed

lemma manhattan_coords:
  assumes "0 < s" "0 \<le> x" "x < s" "0 \<le> x'" "x' < s"
  shows "manhattan s (s * y + x) (s * y' + x') = \<bar>x - x'\<bar> + \<bar>y - y'\<bar>"
  using assms by (simp add: manhattan_def)

lemma slot_down:
  assumes "0 < s" "0 \<le> e" "e < s * s" "e div s > 0"
  shows "0 \<le> e - s \<and> e - s < s * s \<and> manhattan s (e - s) e = 1"
proof -
  define x y where "x = e mod s" and "y = e div s"
  have c1: "e = s * y + x" by (simp add: x_def y_def)
  from slot_coords [OF assms(1-3)] have c: "0 \<le> x" "x < s" "0 \<le> y" "y < s"
    by (simp_all add: x_def y_def)
  have t: "e - s = s * (y - 1) + x" using c1 by (simp add: algebra_simps)
  have "0 < y" using assms(4) by (simp add: y_def)
  then have "0 \<le> y - 1" "y - 1 < s" using c by simp_all
  from slot_bounds [OF assms(1) c(1,2) this] t
  have "0 \<le> e - s \<and> e - s < s * s" by simp
  moreover have "manhattan s (e - s) e = 1"
    by (subst t, subst c1) (simp add: manhattan_coords [OF assms(1) c(1,2) c(1,2), of "y - 1" y])
  ultimately show ?thesis by simp
qed

lemma slot_up:
  assumes "0 < s" "0 \<le> e" "e < s * s" "e div s < s - 1"
  shows "0 \<le> e + s \<and> e + s < s * s \<and> manhattan s (e + s) e = 1"
proof -
  define x y where "x = e mod s" and "y = e div s"
  have c1: "e = s * y + x" by (simp add: x_def y_def)
  from slot_coords [OF assms(1-3)] have c: "0 \<le> x" "x < s" "0 \<le> y" "y < s"
    by (simp_all add: x_def y_def)
  have t: "e + s = s * (y + 1) + x" using c1 by (simp add: algebra_simps)
  have "y < s - 1" using assms(4) by (simp add: y_def)
  then have "0 \<le> y + 1" "y + 1 < s" using c by simp_all
  from slot_bounds [OF assms(1) c(1,2) this] t
  have "0 \<le> e + s \<and> e + s < s * s" by simp
  moreover have "manhattan s (e + s) e = 1"
    by (subst t, subst c1) (simp add: manhattan_coords [OF assms(1) c(1,2) c(1,2), of "y + 1" y])
  ultimately show ?thesis by simp
qed

lemma slot_right:
  assumes "0 < s" "0 \<le> e" "e < s * s" "e mod s > 0"
  shows "0 \<le> e - 1 \<and> e - 1 < s * s \<and> manhattan s (e - 1) e = 1"
proof -
  define x y where "x = e mod s" and "y = e div s"
  have c1: "e = s * y + x" by (simp add: x_def y_def)
  from slot_coords [OF assms(1-3)] have c: "0 \<le> x" "x < s" "0 \<le> y" "y < s"
    by (simp_all add: x_def y_def)
  have t: "e - 1 = s * y + (x - 1)" using c1 by simp
  have "0 < x" using assms(4) by (simp add: x_def)
  then have x1: "0 \<le> x - 1" "x - 1 < s" using c by simp_all
  from slot_bounds [OF assms(1) x1 c(3,4)] t
  have "0 \<le> e - 1 \<and> e - 1 < s * s" by simp
  moreover have "manhattan s (e - 1) e = 1"
    by (subst t, subst c1) (simp add: manhattan_coords [OF assms(1) x1 c(1,2), of y y])
  ultimately show ?thesis by simp
qed

lemma slot_left:
  assumes "0 < s" "0 \<le> e" "e < s * s" "e mod s < s - 1"
  shows "0 \<le> e + 1 \<and> e + 1 < s * s \<and> manhattan s (e + 1) e = 1"
proof -
  define x y where "x = e mod s" and "y = e div s"
  have c1: "e = s * y + x" by (simp add: x_def y_def)
  from slot_coords [OF assms(1-3)] have c: "0 \<le> x" "x < s" "0 \<le> y" "y < s"
    by (simp_all add: x_def y_def)
  have t: "e + 1 = s * y + (x + 1)" using c1 by simp
  have "x < s - 1" using assms(4) by (simp add: x_def)
  then have x1: "0 \<le> x + 1" "x + 1 < s" using c by simp_all
  from slot_bounds [OF assms(1) x1 c(3,4)] t
  have "0 \<le> e + 1 \<and> e + 1 < s * s" by simp
  moreover have "manhattan s (e + 1) e = 1"
    by (subst t, subst c1) (simp add: manhattan_coords [OF assms(1) x1 c(1,2), of y y])
  ultimately show ?thesis by simp
qed

section \<open>The choice of a direction\<close>

lemma floorOfProduct_range:
  assumes "mathRandom r" "n \<in> {1, 2, 3, 4}"
  shows "0 \<le> floorOfProduct r n \<and> floorOfProduct r n < int n"
proof -
  have r: "0 \<le> r" "r \<le> 1 - 1 / 2 ^ 53" using assms(1) by (simp_all add: mathRandom_def)
  have p: "0 \<le> r * of_nat n" "r * of_nat n \<le> of_nat n - of_nat n / 2 ^ 53"
  proof -
    show "0 \<le> r * of_nat n" using r(1) by simp
    have "r * of_nat n \<le> (1 - 1 / 2 ^ 53) * of_nat n"
      using r(2) by (intro mult_right_mono) simp_all
    then show "r * of_nat n \<le> of_nat n - of_nat n / 2 ^ 53" by (simp add: algebra_simps)
  qed
  have fl: "0 \<le> \<lfloor>r * of_nat n\<rfloor>" "\<lfloor>r * of_nat n\<rfloor> < int n"
  proof -
    show "0 \<le> \<lfloor>r * of_nat n\<rfloor>" using p(1) by simp
    have "r * of_nat n < of_nat n" using p(2) assms(2) by auto
    then show "\<lfloor>r * of_nat n\<rfloor> < int n" by (simp add: floor_less_iff)
  qed
  from assms(2) consider "n = 1" | "n = 2" | "n = 3" | "n = 4" by auto
  then show ?thesis
  proof cases
    case 1
    with p fl show ?thesis by (auto simp: floorOfProduct_def Let_def)
  next
    case 2
    with p fl show ?thesis by (auto simp: floorOfProduct_def Let_def)
  next
    case 3
    with p fl show ?thesis by (auto simp: floorOfProduct_def Let_def)
  next
    case 4
    with p fl show ?thesis by (auto simp: floorOfProduct_def Let_def)
  qed
qed

lemma possibleMoves_length: "length (possibleMoves s e) \<le> 4"
  by (simp add: possibleMoves_def Let_def)

lemma pickMove_in:
  assumes "pm \<noteq> []" "length pm \<le> 4" "mathRandom r"
  shows "nat (floorOfProduct r (length pm)) < length pm
     \<and> pickMove pm r = Some (pm ! nat (floorOfProduct r (length pm)))"
proof -
  have "0 < length pm" using assms(1) by simp
  with assms(2) have "length pm = 1 \<or> length pm = 2 \<or> length pm = 3 \<or> length pm = 4"
    by arith
  then have "length pm \<in> {1, 2, 3, 4}" by auto
  from floorOfProduct_range [OF assms(3) this]
  show ?thesis by (simp add: pickMove_def Let_def nat_less_iff)
qed

lemma possibleMoves_guard:
  assumes "d \<in> set (possibleMoves s e)"
  shows "(d = DOWN \<longrightarrow> e div s > 0) \<and> (d = UP \<longrightarrow> e div s < s - 1) \<and>
         (d = RIGHT \<longrightarrow> js_rem e s > 0) \<and> (d = LEFT \<longrightarrow> js_rem e s < s - 1)"
  using assms by (auto simp: possibleMoves_def Let_def split: if_splits)

lemma possibleMoves_nonempty:
  assumes "2 \<le> s"
  shows "possibleMoves s e \<noteq> []"
  using assms by (auto simp: possibleMoves_def Let_def)

section \<open>A click inside the board\<close>

lemma click_adjacent_iff:
  assumes "0 < size_st st" "0 \<le> t" "Null \<in> set (elems (board st))"
  shows "(\<bar>js_rem t (size_st st) - js_rem (indexOf (elems (board st)) Null) (size_st st)\<bar>
          + \<bar>t div size_st st - indexOf (elems (board st)) Null div size_st st\<bar> = 1)
         = (manhattan (size_st st) t (indexOf (elems (board st)) Null) = 1)"
proof -
  from assms(3) have "indexOf (elems (board st)) Null \<noteq> - 1" by (rule indexOf_present)
  then have "0 \<le> indexOf (elems (board st)) Null" using indexOf_nth by blast
  with assms show ?thesis by (simp add: manhattan_def js_rem_nonneg)
qed

lemma handleTileClick_slide:
  assumes "status st = PLAYING" "0 < size_st st" "0 \<le> t" "t < int (length (elems (board st)))"
    "Null \<in> set (elems (board st))"
  shows "handleTileClick t st =
     (if manhattan (size_st st) t (indexOf (elems (board st)) Null) = 1
      then st\<lparr>board := slideTile (spread (board st)) t, moves := moves st + 1\<rparr> else st)"
proof -
  let ?e = "indexOf (elems (board st)) Null"
  from assms(5) have ne: "?e \<noteq> - 1" by (rule indexOf_present)
  then have e: "0 \<le> ?e" "?e < int (length (elems (board st)))" "elems (board st) ! nat ?e = Null"
    using indexOf_nth by blast+
  have sw: "arr_swap (spread (board st)) t ?e = slideTile (spread (board st)) t"
    using assms(3,4) e by (simp add: arr_swap_in slideTile_def spread_def)
  show ?thesis
    using assms ne click_adjacent_iff [OF assms(2,3,5)] sw
    by (simp add: handleTileClick_def Let_def)
qed

lemma target_legal:
  assumes "2 \<le> s" "0 \<le> e" "e < s * s" "mathRandom r"
  shows "0 \<le> targetOf s e (pickMove (possibleMoves s e) r) \<and>
         targetOf s e (pickMove (possibleMoves s e) r) < s * s \<and>
         manhattan s (targetOf s e (pickMove (possibleMoves s e) r)) e = 1"
proof -
  have s: "0 < s" using assms(1) by simp
  from pickMove_in [OF possibleMoves_nonempty [OF assms(1)] possibleMoves_length assms(4)]
  obtain d where d: "d \<in> set (possibleMoves s e)" "pickMove (possibleMoves s e) r = Some d"
    using nth_mem by blast
  note g = possibleMoves_guard [OF d(1)]
  have rem: "js_rem e s = e mod s" using assms(2) s by (rule js_rem_nonneg)
  show ?thesis
  proof (cases d)
    case UP
    with g slot_up [OF s assms(2,3)] d(2) show ?thesis by (simp add: targetOf_def)
  next
    case DOWN
    with g slot_down [OF s assms(2,3)] d(2) show ?thesis by (simp add: targetOf_def)
  next
    case LEFT
    with g slot_left [OF s assms(2,3)] d(2) rem show ?thesis by (simp add: targetOf_def)
  next
    case RIGHT
    with g slot_right [OF s assms(2,3)] d(2) rem show ?thesis by (simp add: targetOf_def)
  qed
qed

section \<open>The board invariant\<close>

lemma manhattan_sym: "manhattan s a b = manhattan s b a"
  by (simp add: manhattan_def abs_minus_commute)

lemma manhattan_self: "manhattan s a a = 0"
  by (simp add: manhattan_def)

lemma boardInvariant_length:
  assumes "boardInvariant s b"
  shows "int (length (elems b)) = s * s \<or> (s * s < 1 \<and> length (elems b) = 1)"
proof -
  from assms have "size (mset (elems b)) = size (mset (map Num [1..s * s - 1]) + {#Null#})"
    by (simp add: boardInvariant_def)
  then have "length (elems b) = length [1..s * s - 1] + 1" by simp
  then show ?thesis by auto
qed

lemma boardInvariant_count_Null:
  assumes "boardInvariant s b"
  shows "count_list (elems b) Null = 1"
proof -
  have "count_list (elems b) Null = count (mset (elems b)) Null" by (simp add: count_mset)
  also have "\<dots> = count (mset (map Num [1..s * s - 1]) + {#Null#}) Null"
    using assms by (simp add: boardInvariant_def)
  also have "\<dots> = 1" by (auto simp: count_eq_zero_iff)
  finally show ?thesis .
qed

lemma boardInvariant_len: "s \<noteq> 0 \<Longrightarrow> boardInvariant s b \<Longrightarrow> int (length (elems b)) = s * s"
proof -
  assume s: "s \<noteq> 0" and b: "boardInvariant s b"
  have "0 < s * s" using s by (cases "0 < s") (auto simp: zero_less_mult_iff)
  with boardInvariant_length [OF b] show ?thesis by auto
qed

lemma map_Suc_upt: "map (\<lambda>i. int i + 1) [0..<k] = [1..int k]"
proof (induction k)
  case 0
  show ?case by simp
next
  case (Suc k)
  have "[1..int (Suc k)] = [1..int k] @ [int k + 1]"
    by (simp add: upto_rec2)
  with Suc show ?case by simp
qed

lemma solvedLayout_elems:
  assumes "1 \<le> n"
  shows "solvedLayout n = \<lparr>elems = map Num [1..n - 1] @ [Null], props = []\<rparr>"
proof -
  obtain m where m: "nat n = Suc m" using assms by (cases "nat n") auto
  then have n: "n - 1 = int m" by simp
  have "map (\<lambda>i. Num (int i + 1)) [0..<m] = map Num (map (\<lambda>i. int i + 1) [0..<m])"
    by simp
  also have "\<dots> = map Num [1..int m]" by (simp only: map_Suc_upt)
  finally have pre: "map (\<lambda>i. Num (int i + 1)) [0..<m] = map Num [1..int m]" .
  show ?thesis
    using pre by (simp add: solvedLayout_def arr_set_def m n list_update_append)
qed

lemma boardInvariant_solved: "1 \<le> s * s \<Longrightarrow> boardInvariant s (solvedLayout (s * s))"
  by (simp add: solvedLayout_elems boardInvariant_def)

lemma walkInv_init:
  assumes "s \<noteq> 0"
  shows "walkInv s (solvedLayout (s * s), s * s - 1)"
proof -
  have "0 < s * s" using assms by (cases "0 < s") (auto simp: zero_less_mult_iff)
  then have n: "1 \<le> s * s" by simp
  have bi: "boardInvariant s (solvedLayout (s * s))" using n by (rule boardInvariant_solved)
  have "length [1..s * s - 1] = nat (s * s - 1)" by simp
  then have "(map Num [1..s * s - 1] @ [Null]) ! nat (s * s - 1) = Null"
    by (simp add: nth_append)
  with n bi show ?thesis
    by (simp add: walkInv_def solvedLayout_elems slides_refl)
qed

section \<open>The walk keeps the board a permutation reached by legal slides\<close>

lemma slideTile_blank:
  assumes "boardInvariant s b" "s \<noteq> 0" "0 \<le> e" "e < s * s" "elems b ! nat e = Null"
    "0 \<le> t" "t < s * s" "t \<noteq> e"
  shows "indexOf (elems b) Null = e"
    and "arr_swap b e t = slideTile b t"
    and "boardInvariant s (slideTile b t)"
    and "elems (slideTile b t) ! nat t = Null"
proof -
  have len: "int (length (elems b)) = s * s" using assms(2,1) by (rule boardInvariant_len)
  have e: "nat e < length (elems b)" and t: "nat t < length (elems b)"
    using len assms(3,4,6,7) by simp_all
  have ne: "nat t \<noteq> nat e" using assms(3,6,8) by simp
  from indexOf_unique [OF boardInvariant_count_Null [OF assms(1)] e assms(5)] assms(3)
  show ix: "indexOf (elems b) Null = e" by simp
  have upd: "(elems b)[nat e := elems b ! nat t, nat t := elems b ! nat e]
             = (elems b)[nat t := Null, nat e := elems b ! nat t]"
    using ne assms(5) by (simp add: list_update_swap)
  show sw: "arr_swap b e t = slideTile b t"
    using len assms(3,4,6,7) upd by (simp add: arr_swap_in slideTile_def ix)
  have "mset ((elems b)[nat e := elems b ! nat t, nat t := elems b ! nat e]) = mset (elems b)"
    using t e by (rule mset_swap)
  then show "boardInvariant s (slideTile b t)"
    using assms(1) upd by (simp add: boardInvariant_def slideTile_def ix)
  show "elems (slideTile b t) ! nat t = Null"
    using t e ne by (simp add: slideTile_def ix)
qed

lemma walkInv_step:
  assumes "2 \<le> s" "mathRandom r" "walkInv s st"
  shows "walkInv s (shuffleStep s r st)"
    and "shuffleStep s r st =
          (slideTile (fst st) (targetOf s (snd st) (pickMove (possibleMoves s (snd st)) r)),
           targetOf s (snd st) (pickMove (possibleMoves s (snd st)) r))"
    and "legalSlide s (fst st) (targetOf s (snd st) (pickMove (possibleMoves s (snd st)) r))"
proof -
  let ?b = "fst st" and ?e = "snd st"
  let ?t = "targetOf s ?e (pickMove (possibleMoves s ?e) r)"
  from assms(3) have inv: "boardInvariant s ?b" "0 \<le> ?e" "?e < s * s"
    "elems ?b ! nat ?e = Null" "slides s (solvedLayout (s * s)) ?b"
    by (simp_all add: walkInv_def)
  have s0: "s \<noteq> 0" using assms(1) by simp
  from target_legal [OF assms(1) inv(2,3) assms(2)]
  have t: "0 \<le> ?t" "?t < s * s" "manhattan s ?t ?e = 1" by simp_all
  have te: "?t \<noteq> ?e" using t(3) manhattan_self [of s ?e] by auto
  note sl = slideTile_blank [OF inv(1) s0 inv(2,3,4) t(1,2) te]
  have len: "int (length (elems ?b)) = s * s" using s0 inv(1) by (rule boardInvariant_len)
  have "Null \<in> set (elems ?b)"
    using inv(2,3,4) len by (metis nat_less_iff nth_mem)
  then show legal: "legalSlide s ?b ?t"
    using t len by (simp add: legalSlide_def sl(1))
  show eq: "shuffleStep s r st = (slideTile ?b ?t, ?t)"
    by (simp add: shuffleStep_def Let_def sl(2))
  have "slides s (solvedLayout (s * s)) (slideTile ?b ?t)"
    using inv(5) legal by (rule slides_step)
  then show "walkInv s (shuffleStep s r st)"
    using sl(3,4) t(1,2) by (simp add: eq walkInv_def)
qed

lemma walkInv_walk:
  assumes "2 \<le> s" "\<forall>n. mathRandom (rnd n)"
  shows "walkInv s st \<Longrightarrow> walkInv s (walk rnd s k n st)"
proof (induction n arbitrary: k st)
  case 0
  then show ?case by simp
next
  case (Suc n)
  have "walkInv s (shuffleStep s (rnd k) st)"
    using assms Suc.prems by (intro walkInv_step(1)) auto
  then show ?case by (simp add: Suc.IH)
qed

lemma attempt_inv:
  assumes "2 \<le> s" "\<forall>n. mathRandom (rnd n)"
  shows "boardInvariant s (attempt rnd s k)" and "slides s (solvedLayout (s * s)) (attempt rnd s k)"
proof -
  have "walkInv s (solvedLayout (s * s), s * s - 1)" using assms(1) by (intro walkInv_init) simp
  then have "walkInv s (walk rnd s k (nat (s * s * 10)) (solvedLayout (s * s), s * s - 1))"
    by (rule walkInv_walk [OF assms])
  then show "boardInvariant s (attempt rnd s k)" and "slides s (solvedLayout (s * s)) (attempt rnd s k)"
    by (simp_all add: attempt_def Let_def walkInv_def)
qed

section \<open>When shuffleBoard returns\<close>

lemma shuffleBoard_result:
  assumes "shuffleBoard rnd s k = Some b"
  shows "\<exists>j. b = attempt rnd s (k + j * nat (s * s * 10)) \<and> \<not> isSolved b"
proof (rule shuffleBoard.raw_induct
    [where P = "\<lambda>rnd s k b. \<exists>j. b = attempt rnd s (k + j * nat (s * s * 10)) \<and> \<not> isSolved b",
      OF _ assms])
  fix f :: "(nat \<Rightarrow> rat) \<Rightarrow> int \<Rightarrow> nat \<Rightarrow> BoardLayout option" and rnd s k b
  assume IH: "\<And>rnd s k b. f rnd s k = Some b \<Longrightarrow>
      \<exists>j. b = attempt rnd s (k + j * nat (s * s * 10)) \<and> \<not> isSolved b"
    and body: "(if isSolved (attempt rnd s k) then f rnd s (k + nat (s * s * 10))
      else Some (attempt rnd s k)) = Some b"
  show "\<exists>j. b = attempt rnd s (k + j * nat (s * s * 10)) \<and> \<not> isSolved b"
  proof (cases "isSolved (attempt rnd s k)")
    case True
    with body have "f rnd s (k + nat (s * s * 10)) = Some b" by simp
    from IH [OF this] obtain j where
      "b = attempt rnd s (k + nat (s * s * 10) + j * nat (s * s * 10))" "\<not> isSolved b"
      by blast
    then have "b = attempt rnd s (k + Suc j * nat (s * s * 10)) \<and> \<not> isSolved b"
      by (simp add: add.assoc)
    then show ?thesis by blast
  next
    case False
    with body have "b = attempt rnd s (k + 0 * nat (s * s * 10)) \<and> \<not> isSolved b" by auto
    then show ?thesis by blast
  qed
qed

lemma shuffleBoard_returns:
  "\<not> isSolved (attempt rnd s (k + j * nat (s * s * 10))) \<Longrightarrow> \<exists>b. shuffleBoard rnd s k = Some b"
proof (induction j arbitrary: k)
  case 0
  then show ?case by (subst shuffleBoard.simps) simp
next
  case (Suc j)
  show ?case
  proof (cases "isSolved (attempt rnd s k)")
    case True
    from Suc.prems have "\<not> isSolved (attempt rnd s (k + nat (s * s * 10) + j * nat (s * s * 10)))"
      by (simp add: add.assoc)
    from Suc.IH [OF this] obtain b where "shuffleBoard rnd s (k + nat (s * s * 10)) = Some b"
      by blast
    with True show ?thesis by (subst shuffleBoard.simps) simp
  next
    case False
    then show ?thesis by (subst shuffleBoard.simps) simp
  qed
qed

lemma shuffleBoard_diverges:
  assumes "\<forall>j. isSolved (attempt rnd s (k + j * nat (s * s * 10)))"
  shows "shuffleBoard rnd s k = None"
proof (cases "shuffleBoard rnd s k")
  case None
  then show ?thesis .
next
  case (Some b)
  from shuffleBoard_result [OF this] assms show ?thesis by blast
qed

section \<open>Evaluating the concrete inputs\<close>

lemma walk_shift: "walk rnd s (k + m) n st = walk (\<lambda>i. rnd (i + m)) s k n st"
proof (induction n arbitrary: k st)
  case 0
  show ?case by simp
next
  case (Suc n)
  from Suc [of "Suc k"] show ?case by simp
qed

lemma attempt_shift: "attempt rnd s (k + m) = attempt (\<lambda>i. rnd (i + m)) s k"
  by (simp add: attempt_def walk_shift)

lemma attempt_halves:
  "attempt halves 3 0 =
     \<lparr>elems = [Num 1, Num 2, Num 3, Num 4, Num 5, Num 6, Null, Num 7, Num 8], props = []\<rparr>"
  by code_simp

lemma attempt_halves_unsolved: "\<not> isSolved (attempt halves 3 0)"
  by code_simp

lemma shuffleBoard_halves: "shuffleBoard halves 3 0 = Some (attempt halves 3 0)"
  using attempt_halves_unsolved by (subst shuffleBoard.simps) simp

lemma attempt_backAndForth: "isSolved (attempt backAndForth 3 0)"
  by code_simp

lemma backAndForth_shift: "(\<lambda>i. backAndForth (i + j * 90)) = backAndForth"
  by (rule ext) (simp add: backAndForth_def)

lemma backAndForth_always_solved: "isSolved (attempt backAndForth 3 (0 + j * nat (3 * 3 * 10)))"
proof -
  have "attempt backAndForth 3 (0 + j * 90) = attempt backAndForth 3 0"
    by (simp only: attempt_shift backAndForth_shift)
  then show ?thesis using attempt_backAndForth by simp
qed

lemma shuffleBoard_backAndForth: "shuffleBoard backAndForth 3 0 = None"
  by (rule shuffleBoard_diverges, rule allI, rule backAndForth_always_solved)

lemma halves_range: "\<forall>n. mathRandom (halves n)"
  by (simp add: halves_def mathRandom_def)

lemma isSolved_playing3: "\<not> isSolved (board playing3)"
  by code_simp

section \<open>What every reachable session satisfies\<close>

lemma boardInvariant_spread: "boardInvariant s (spread b) = boardInvariant s b"
  by (simp add: boardInvariant_def spread_def)

lemma boardInvariant_Null: "boardInvariant s b \<Longrightarrow> Null \<in> set (elems b)"
proof -
  assume "boardInvariant s b"
  then have "count_list (elems b) Null = 1" by (rule boardInvariant_count_Null)
  then have "count_list (elems b) Null \<noteq> 0" by simp
  then show ?thesis by (simp add: count_list_0_iff)
qed

lemma handleTileClick_boardInvariant:
  assumes "0 < size_st st" "boardInvariant (size_st st) (board st)"
    "0 \<le> t" "t < size_st st * size_st st"
  shows "boardInvariant (size_st st) (board (handleTileClick t st))"
proof (cases "status st = PLAYING")
  case False
  with assms(2) show ?thesis by (simp add: handleTileClick_def)
next
  case True
  let ?s = "size_st st" and ?b = "spread (board st)"
  let ?e = "indexOf (elems (board st)) Null"
  have s0: "?s \<noteq> 0" using assms(1) by simp
  have len: "int (length (elems (board st))) = ?s * ?s" using s0 assms(2) by (rule boardInvariant_len)
  have nul: "Null \<in> set (elems (board st))" using assms(2) by (rule boardInvariant_Null)
  then have "?e \<noteq> - 1" by (rule indexOf_present)
  then have e: "0 \<le> ?e" "?e < ?s * ?s" "elems ?b ! nat ?e = Null"
    using indexOf_nth [of "elems (board st)" Null] len by (simp_all add: spread_def)
  have inv: "boardInvariant ?s ?b" using assms(2) by (simp add: boardInvariant_spread)
  have click: "handleTileClick t st =
     (if manhattan ?s t ?e = 1 then st\<lparr>board := slideTile ?b t, moves := moves st + 1\<rparr> else st)"
    using True assms(1,3) nul len assms(4) by (intro handleTileClick_slide) simp_all
  show ?thesis
  proof (cases "manhattan ?s t ?e = 1")
    case False
    with click assms(2) show ?thesis by simp
  next
    case adj: True
    then have "t \<noteq> ?e" using manhattan_self [of ?s ?e] by auto
    from slideTile_blank(3) [OF inv s0 e assms(3,4) this] click adj show ?thesis by simp
  qed
qed

lemma solvedEffect_fields:
  "board (solvedEffect st) = board st" "size_st (solvedEffect st) = size_st st"
  "moves (solvedEffect st) = moves st" "time (solvedEffect st) = time st"
  "timeLimit (solvedEffect st) = timeLimit st"
  "status (solvedEffect st) = (if status st = PLAYING \<and> isSolved (board st) then SOLVED else status st)"
  by (simp_all add: solvedEffect_def timeLimit_def)

lemma handleTileClick_fields:
  "size_st (handleTileClick t st) = size_st st" "time (handleTileClick t st) = time st"
  "status (handleTileClick t st) = status st" "timeLimit (handleTileClick t st) = timeLimit st"
  "moves st \<le> moves (handleTileClick t st)"
  by (simp_all add: handleTileClick_def timeLimit_def Let_def)

lemma shuffleBoard_inv:
  assumes "2 \<le> s" "\<forall>n. mathRandom (rnd n)" "shuffleBoard rnd s k = Some b"
  shows "boardInvariant s b" "\<not> isSolved b" "slides s (solvedLayout (s * s)) b"
proof -
  from shuffleBoard_result [OF assms(3)] obtain j
    where j: "b = attempt rnd s (k + j * nat (s * s * 10))" "\<not> isSolved b" by blast
  from attempt_inv [OF assms(1,2)] j(1)
  show "boardInvariant s b" "slides s (solvedLayout (s * s)) b" by simp_all
  from j(2) show "\<not> isSolved b" .
qed

lemma reachInv_solvedEffect: "reachInv0 st \<Longrightarrow> reachInv (solvedEffect st)"
  by (simp add: reachInv_def reachInv0_def solvedEffect_fields)

lemma reachInv0_start:
  assumes "level \<in> {3, 4, 5}" "\<forall>n. mathRandom (rnd n)" "shuffleBoard rnd level k = Some b"
  shows "reachInv0 (st\<lparr>imageSrc := i, size_st := level, board := b, moves := 0, time := 0, status := PLAYING\<rparr>)"
proof -
  have "2 \<le> level" using assms(1) by auto
  note sb = shuffleBoard_inv [OF this assms(2,3)]
  have "0 < level * level * 10" using assms(1) by auto
  with sb(1) assms(1) show ?thesis by (simp add: reachInv0_def timeLimit_def)
qed

lemma reachInv0_reset:
  assumes "reachInv0 st" "\<forall>n. mathRandom (rnd n)" "shuffleBoard rnd (size_st st) k = Some b"
  shows "reachInv0 (st\<lparr>board := b, moves := 0, time := 0, status := PLAYING\<rparr>)"
proof -
  have lv: "size_st st \<in> {3, 4, 5}" using assms(1) by (simp add: reachInv0_def)
  then have "2 \<le> size_st st" by auto
  note sb = shuffleBoard_inv [OF this assms(2,3)]
  have "0 < size_st st * size_st st * 10" using lv by auto
  with sb(1) lv show ?thesis by (simp add: reachInv0_def timeLimit_def)
qed

lemma reachInv0_solve:
  assumes "reachInv0 st" "status st \<noteq> SELECTING"
  shows "reachInv0 (handleSolve st)"
proof -
  have lv: "size_st st \<in> {3, 4, 5}" using assms(1) by (simp add: reachInv0_def)
  then have "1 \<le> size_st st * size_st st" by auto
  then have "boardInvariant (size_st st) (solvedLayout (size_st st * size_st st))"
    by (rule boardInvariant_solved)
  with assms show ?thesis by (simp add: reachInv0_def handleSolve_def timeLimit_def)
qed

lemma reachInv0_click:
  assumes "reachInv0 st" "v \<in> set (elems (board st))" "status st \<noteq> SELECTING"
  shows "reachInv0 (handleTileClick (indexOf (elems (board st)) v) st)"
proof -
  let ?t = "indexOf (elems (board st)) v"
  from assms(1,3) have inv: "boardInvariant (size_st st) (board st)" and s: "0 < size_st st"
    by (auto simp: reachInv0_def)
  from s have len: "int (length (elems (board st))) = size_st st * size_st st"
    using inv by (intro boardInvariant_len) simp_all
  from assms(2) have "?t \<noteq> - 1" by (rule indexOf_present)
  then have t: "0 \<le> ?t" "?t < size_st st * size_st st"
    using indexOf_nth [of "elems (board st)" v] len by simp_all
  note bi = handleTileClick_boardInvariant [OF s inv t]
  note f = handleTileClick_fields [where t = ?t and st = st]
  from assms(1) have "0 \<le> moves st" by (simp add: reachInv0_def)
  with f(5) have "0 \<le> moves (handleTileClick ?t st)" by linarith
  with assms(1) bi show ?thesis by (simp add: reachInv0_def f(1-4))
qed

lemma reachInv0_tick:
  assumes "reachInv0 st"
  shows "reachInv0 (timerTick st)"
  using assms by (auto simp: reachInv0_def timerTick_def timeLimit_def)

lemma reachInv_imp0: "reachInv st \<Longrightarrow> reachInv0 st"
  by (simp add: reachInv_def)

lemma reachable_inv: "reachable st \<Longrightarrow> reachInv st"
proof (induction rule: reachable.induct)
  case reach_initial
  show ?case by (simp add: reachInv_def reachInv0_def initial_def timeLimit_def)
next
  case (reach_start st level img rnd k)
  have "reachInv0 (handleGameStart rnd k img level st)"
  proof (cases "shuffleBoard rnd level k")
    case None
    with reach_start.IH reach_start.hyps(2,3) show ?thesis
      by (simp add: handleGameStart_def reachInv_def reachInv0_def)
  next
    case (Some b)
    from reachInv0_start [OF reach_start.hyps(3,5) Some] Some show ?thesis
      by (simp add: handleGameStart_def)
  qed
  then show ?case by (rule reachInv_solvedEffect)
next
  case (reach_newGame st)
  then show ?case by (simp add: reachInv_def reachInv0_def handleNewGame_def timeLimit_def)
next
  case (reach_reset st rnd k)
  have "reachInv0 (handleReset rnd k st)"
  proof (cases "shuffleBoard rnd (size_st st) k")
    case None
    with reach_reset.IH show ?thesis by (simp add: handleReset_def reachInv_def)
  next
    case (Some b)
    from reachInv0_reset [OF reachInv_imp0 [OF reach_reset.IH] reach_reset.hyps(3) Some] Some
    show ?thesis by (simp add: handleReset_def)
  qed
  then show ?case by (rule reachInv_solvedEffect)
next
  case (reach_solve st)
  then show ?case by (intro reachInv_solvedEffect reachInv0_solve reachInv_imp0)
next
  case (reach_click st v)
  then show ?case by (simp add: reachInv_solvedEffect reachInv0_click reachInv_imp0)
next
  case (reach_tick st)
  from reach_tick.IH have "reachInv0 (timerTick st)" by (intro reachInv0_tick reachInv_imp0)
  moreover have "board (timerTick st) = board st" by (simp add: timerTick_def)
  moreover have "status (timerTick st) = PLAYING \<longrightarrow> status st = PLAYING" by (simp add: timerTick_def)
  ultimately show ?case using reach_tick.IH by (auto simp: reachInv_def)
qed

section \<open>The loop of isSolved\<close>

lemma isSolved_loop_iff:
  assumes "xs \<noteq> []" "i \<le> length xs - 1"
  shows "isSolved_loop i \<lparr>elems = xs, props = ps\<rparr>
         \<longleftrightarrow> (\<forall>j. i \<le> j \<and> j < length xs - 1 \<longrightarrow> xs ! j = Num (int j + 1)) \<and> last xs = Null"
  using assms
proof (induction "length xs - 1 - i" arbitrary: i)
  case 0
  then have i: "i = length xs - 1" by simp
  have "arr_get \<lparr>elems = xs, props = ps\<rparr> (int (length xs) - 1) = last xs"
    using 0(2) by (simp add: arr_get_def last_conv_nth nat_diff_distrib')
  then show ?case using i 0(2)
    by (subst isSolved_loop.simps) (auto simp: of_nat_diff)
next
  case (Suc n)
  then have lt: "i < length xs - 1" by simp
  have IH: "isSolved_loop (Suc i) \<lparr>elems = xs, props = ps\<rparr>
         \<longleftrightarrow> (\<forall>j. Suc i \<le> j \<and> j < length xs - 1 \<longrightarrow> xs ! j = Num (int j + 1)) \<and> last xs = Null"
    using Suc lt by (intro Suc.hyps(1)) auto
  have get: "arr_get \<lparr>elems = xs, props = ps\<rparr> (int i) = xs ! i"
    using lt by (auto simp: arr_get_def)
  have split: "(\<forall>j. i \<le> j \<and> j < length xs - 1 \<longrightarrow> xs ! j = Num (int j + 1))
     \<longleftrightarrow> xs ! i = Num (int i + 1) \<and> (\<forall>j. Suc i \<le> j \<and> j < length xs - 1 \<longrightarrow> xs ! j = Num (int j + 1))"
    (is "?L \<longleftrightarrow> ?R")
  proof
    assume l: ?L
    then have "xs ! i = Num (int i + 1)" using lt by simp
    moreover have "\<forall>j. Suc i \<le> j \<and> j < length xs - 1 \<longrightarrow> xs ! j = Num (int j + 1)"
      using l by (simp add: Suc_le_eq)
    ultimately show ?R by simp
  next
    assume r: ?R
    show ?L
    proof (intro allI impI)
      fix j assume j: "i \<le> j \<and> j < length xs - 1"
      show "xs ! j = Num (int j + 1)"
      proof (cases "j = i")
        case True
        with r show ?thesis by simp
      next
        case False
        with j have "Suc i \<le> j" by simp
        with r j show ?thesis by simp
      qed
    qed
  qed
  have "isSolved_loop i \<lparr>elems = xs, props = ps\<rparr>
        \<longleftrightarrow> xs ! i = Num (int i + 1) \<and> isSolved_loop (Suc i) \<lparr>elems = xs, props = ps\<rparr>"
    using lt by (subst isSolved_loop.simps) (auto simp: get)
  then show ?case by (simp only: IH split) blast
qed

lemma solved_list_iff:
  assumes "xs \<noteq> []"
  shows "xs = map Num [1..int (length xs) - 1] @ [Null]
     \<longleftrightarrow> (\<forall>j. j < length xs - 1 \<longrightarrow> xs ! j = Num (int j + 1)) \<and> last xs = Null"
    (is "xs = ?ys \<longleftrightarrow> ?R")
proof -
  have len: "length ?ys = length xs" using assms by (cases xs) auto
  have pre: "\<And>j. j < length xs - 1 \<Longrightarrow> ?ys ! j = Num (int j + 1)"
  proof -
    fix j assume j: "j < length xs - 1"
    then have "j < length (map Num [1..int (length xs) - 1])" by simp
    then have "?ys ! j = Num ([1..int (length xs) - 1] ! j)" by (simp add: nth_append)
    also have "[1..int (length xs) - 1] ! j = 1 + int j" using j by (intro nth_upto) auto
    finally show "?ys ! j = Num (int j + 1)" by (simp add: add.commute)
  qed
  have lst: "last ?ys = Null" by simp
  show ?thesis
  proof
    assume eq: "xs = ?ys"
    have n: "xs ! j = ?ys ! j" for j using eq by (rule arg_cong)
    have l: "last xs = last ?ys" using eq by (rule arg_cong)
    show ?R using pre lst by (simp only: n l) simp
  next
    assume r: ?R
    show "xs = ?ys"
    proof (rule nth_equalityI)
      show "length xs = length ?ys" using len by simp
    next
      fix i assume i: "i < length xs"
      show "xs ! i = ?ys ! i"
      proof (cases "i < length xs - 1")
        case True
        with r pre show ?thesis by simp
      next
        case False
        with i have e: "i = length xs - 1" by simp
        have "xs ! i = last xs" using e assms by (simp add: last_conv_nth)
        moreover have "?ys ! i = last ?ys" using e len by (simp add: last_conv_nth del: last_snoc)
        ultimately show ?thesis using r lst by simp
      qed
    qed
  qed
qed

lemma isSolved_list:
  assumes "xs \<noteq> []"
  shows "isSolved \<lparr>elems = xs, props = ps\<rparr> \<longleftrightarrow> xs = map Num [1..int (length xs) - 1] @ [Null]"
proof -
  have "isSolved \<lparr>elems = xs, props = ps\<rparr>
      \<longleftrightarrow> (\<forall>j. 0 \<le> j \<and> j < length xs - 1 \<longrightarrow> xs ! j = Num (int j + 1)) \<and> last xs = Null"
    unfolding isSolved_def using assms by (intro isSolved_loop_iff) simp_all
  with solved_list_iff [OF assms] show ?thesis by simp
qed

lemma isSolved_solvedLayout:
  assumes "1 \<le> n"
  shows "isSolved (solvedLayout n)"
proof -
  let ?xs = "map Num [1..n - 1] @ [Null]"
  have len: "int (length ?xs) - 1 = n - 1" using assms by simp
  have "?xs = map Num [1..int (length ?xs) - 1] @ [Null]" by (simp only: len)
  then have "isSolved \<lparr>elems = ?xs, props = []\<rparr>"
    by (subst isSolved_list) simp_all
  then show ?thesis using assms by (simp add: solvedLayout_elems)
qed

section \<open>Two clicks in a row\<close>

lemma click_twice:
  assumes "status st = PLAYING" "0 < size_st st"
    "0 \<le> t" "t < int (length (elems (board st)))"
    "count_list (elems (board st)) Null = 1"
    "manhattan (size_st st) t (indexOf (elems (board st)) Null) = 1"
  shows "handleTileClick (indexOf (elems (board st)) Null) (handleTileClick t st)
           = st\<lparr>board := spread (board st), moves := moves st + 2\<rparr>"
    and "handleTileClick t (handleTileClick t st) = handleTileClick t st"
    and "elems (board (handleTileClick t st)) \<noteq> elems (board st)"
proof -
  let ?xs = "elems (board st)" and ?s = "size_st st"
  let ?e = "indexOf ?xs Null"
  let ?ys = "?xs[nat t := Null, nat ?e := ?xs ! nat t]"
  have "count_list ?xs Null \<noteq> 0" using assms(5) by simp
  then have nul: "Null \<in> set ?xs" by (simp add: count_list_0_iff)
  then have "?e \<noteq> - 1" by (rule indexOf_present)
  then have e: "0 \<le> ?e" "?e < int (length ?xs)" "?xs ! nat ?e = Null"
    using indexOf_nth by blast+
  have te: "t \<noteq> ?e" using assms(6) manhattan_self [of ?s ?e] by auto
  then have nte: "nat t \<noteq> nat ?e" using assms(3) e(1) by simp
  have tl: "nat t < length ?xs" and el: "nat ?e < length ?xs" using assms(3,4) e(1,2) by simp_all
  define st1 where "st1 = handleTileClick t st"
  have st1: "st1 = st\<lparr>board := \<lparr>elems = ?ys, props = []\<rparr>, moves := moves st + 1\<rparr>"
    using handleTileClick_slide [OF assms(1-4) nul] assms(6)
    by (simp add: st1_def slideTile_def spread_def)
  have ys_t: "?ys ! nat t = Null" using tl el nte by simp
  have ys_e: "?ys ! nat ?e = ?xs ! nat t" using el by simp
  have "?ys = ?xs[nat t := ?xs ! nat ?e, nat ?e := ?xs ! nat t]" using e(3) by simp
  also have "mset \<dots> = mset ?xs" using el tl by (rule mset_swap)
  finally have ms: "mset ?ys = mset ?xs" .
  have "count_list ?ys Null = count (mset ?ys) Null" by (simp add: count_mset)
  also have "\<dots> = count_list ?xs Null" by (simp only: ms count_mset)
  finally have cnt: "count_list ?ys Null = 1" using assms(5) by simp
  have ix: "indexOf ?ys Null = t"
    using indexOf_unique [OF cnt _ ys_t] tl assms(3) by simp
  have "count_list ?ys Null \<noteq> 0" using cnt by simp
  then have nul1: "Null \<in> set ?ys" by (simp add: count_list_0_iff)
  have p1: "status st1 = PLAYING" "0 < size_st st1" "elems (board st1) = ?ys"
    "size_st st1 = ?s" "moves st1 = moves st + 1"
    using assms(1,2) by (simp_all add: st1)
  have undo: "?ys[nat ?e := Null, nat t := ?ys ! nat ?e] = ?xs"
  proof -
    have a: "?xs[nat ?e := Null] = ?xs" using e(3) by (metis list_update_id)
    have "?ys[nat ?e := Null, nat t := ?ys ! nat ?e]
          = ?xs[nat t := Null, nat ?e := Null, nat t := ?xs ! nat t]"
      by (simp only: ys_e list_update_overwrite)
    also have "\<dots> = ?xs[nat ?e := Null, nat t := Null, nat t := ?xs ! nat t]"
      using nte by (simp add: list_update_swap)
    also have "\<dots> = ?xs[nat t := Null, nat t := ?xs ! nat t]" by (simp only: a)
    also have "\<dots> = ?xs" by simp
    finally show ?thesis .
  qed
  have "handleTileClick ?e st1 =
     (if manhattan (size_st st1) ?e (indexOf (elems (board st1)) Null) = 1
      then st1\<lparr>board := slideTile (spread (board st1)) ?e, moves := moves st1 + 1\<rparr> else st1)"
    using p1 e(1,2) nul1 by (intro handleTileClick_slide) simp_all
  also have "manhattan (size_st st1) ?e (indexOf (elems (board st1)) Null) = 1"
    using assms(6) by (simp add: p1 ix manhattan_sym)
  finally have "handleTileClick ?e st1 =
      st1\<lparr>board := \<lparr>elems = ?ys[nat ?e := Null, nat t := ?ys ! nat ?e], props = []\<rparr>,
          moves := moves st1 + 1\<rparr>"
    by (simp add: slideTile_def spread_def p1 ix)
  then have "handleTileClick ?e st1 = st\<lparr>board := spread (board st), moves := moves st + 2\<rparr>"
    by (simp only: undo) (simp add: st1 spread_def)
  then show "handleTileClick ?e (handleTileClick t st) = st\<lparr>board := spread (board st), moves := moves st + 2\<rparr>"
    by (simp only: st1_def)
  have "handleTileClick t st1 =
     (if manhattan (size_st st1) t (indexOf (elems (board st1)) Null) = 1
      then st1\<lparr>board := slideTile (spread (board st1)) t, moves := moves st1 + 1\<rparr> else st1)"
    using p1 assms(3) tl nul1 by (intro handleTileClick_slide) simp_all
  then have "handleTileClick t st1 = st1" by (simp add: p1 ix manhattan_self)
  then show "handleTileClick t (handleTileClick t st) = handleTileClick t st"
    by (simp only: st1_def)
  have "?xs ! nat t \<noteq> Null"
  proof
    assume "?xs ! nat t = Null"
    from indexOf_unique [OF assms(5) tl this] assms(3) te show False by simp
  qed
  then have "?ys ! nat t \<noteq> ?xs ! nat t" by (simp only: ys_t) simp
  then have "?ys \<noteq> ?xs" by metis
  then show "elems (board (handleTileClick t st)) \<noteq> elems (board st)"
    using p1(3) unfolding st1_def by simp
qed

section \<open>Clicks outside the board\<close>

lemma outside_not_adjacent:
  assumes "0 < s" "0 \<le> e" "e < s * s" "t < 0 \<or> s * s \<le> t"
    "t \<noteq> e + s" "\<not> (t = - s \<and> e = 0)"
  shows "\<bar>js_rem t s - js_rem e s\<bar> + \<bar>t div s - e div s\<bar> \<noteq> 1"
proof -
  note c = slot_coords [OF assms(1-3)]
  have re: "js_rem e s = e mod s" using assms(2,1) by (rule js_rem_nonneg)
  have eq_e: "s * (e div s) + e mod s = e" by (rule mult_div_mod_eq)
  have eq_t: "s * (t div s) + t mod s = t" by (rule mult_div_mod_eq)
  from assms(4) show ?thesis
  proof
    assume hi: "s * s \<le> t"
    moreover have "0 \<le> s * s" by simp
    ultimately have t0: "0 \<le> t" by linarith
    have rt: "js_rem t s = t mod s" using t0 assms(1) by (rule js_rem_nonneg)
    have "(s * s) div s \<le> t div s" using hi assms(1) by (intro zdiv_mono1) auto
    then have d: "s \<le> t div s" using assms(1) by simp
    show ?thesis
    proof
      assume one: "\<bar>js_rem t s - js_rem e s\<bar> + \<bar>t div s - e div s\<bar> = 1"
      from one d c have "t div s = e div s + 1" "t mod s = e mod s"
        unfolding rt re by linarith+
      with eq_t eq_e have "t = e + s" by (simp add: algebra_simps)
      with assms(5) show False by simp
    qed
  next
    assume lo: "t < 0"
    have d: "t div s < 0" using lo assms(1) by (rule div_neg_pos_less0)
    have rt: "js_rem t s = - ((- t) mod s)" using lo assms(1) by (simp add: js_rem_def)
    have m: "0 \<le> (- t) mod s" using assms(1) by simp
    show ?thesis
    proof
      assume one: "\<bar>js_rem t s - js_rem e s\<bar> + \<bar>t div s - e div s\<bar> = 1"
      from one d c m have f: "t div s = - 1" "e div s = 0" "(- t) mod s = 0" "e mod s = 0"
        unfolding rt re by linarith+
      from f(2,4) eq_e have e0: "e = 0" by simp
      from f(3) have "t mod s = 0" by (simp add: mod_eq_0_iff_dvd)
      with f(1) eq_t have "t = - s" by simp
      with e0 assms(6) show False by simp
    qed
  qed
qed

section \<open>Two reachable sessions\<close>

lemma start_playing3:
  "handleGameStart halves 0 ''data:image/png;base64,AAAA'' 3 initial = playing3"
  by (simp add: handleGameStart_def shuffleBoard_halves attempt_halves playing3_def initial_def)

lemma solvedEffect_playing3: "solvedEffect playing3 = playing3"
  using isSolved_playing3 by (simp add: solvedEffect_def)

lemma reachable_playing3: "reachable playing3"
proof -
  have "reachable (solvedEffect (handleGameStart halves 0 ''data:image/png;base64,AAAA'' 3 initial))"
    using reach_initial _ _ _ halves_range
    by (rule reach_start) (simp_all add: initial_def)
  then show ?thesis by (simp only: start_playing3 solvedEffect_playing3)
qed

lemma click3_playing3:
  "step (Click (indexOf (elems (board playing3)) (Num 4))) playing3 =
     playing3\<lparr>board := \<lparr>elems = [Num 1, Num 2, Num 3, Null, Num 5, Num 6, Num 4, Num 7, Num 8],
                          props = []\<rparr>, moves := 1\<rparr>"
  by code_simp

lemma click0_playing3:
  "step (Click (indexOf [Num 1, Num 2, Num 3, Null, Num 5, Num 6, Num 4, Num 7, Num 8] (Num 1)))
     (playing3\<lparr>board := \<lparr>elems = [Num 1, Num 2, Num 3, Null, Num 5, Num 6, Num 4, Num 7, Num 8],
                          props = []\<rparr>, moves := 1\<rparr>) = blankAtZero"
  by code_simp

lemma reachable_blankAtZero: "reachable blankAtZero"
proof -
  let ?st1 = "playing3\<lparr>board := \<lparr>elems = [Num 1, Num 2, Num 3, Null, Num 5, Num 6, Num 4, Num 7, Num 8],
                          props = []\<rparr>, moves := 1\<rparr>"
  have "reachable (step (Click (indexOf (elems (board playing3)) (Num 4))) playing3)"
    using reachable_playing3 by (rule reach_click) (simp_all add: playing3_def)
  then have r1: "reachable ?st1" by (simp only: click3_playing3)
  have "reachable (step (Click (indexOf (elems (board ?st1)) (Num 1))) ?st1)"
    using r1 by (rule reach_click) (simp_all add: playing3_def)
  then show ?thesis using click0_playing3 by simp
qed

section \<open>Runs of ticks and clicks\<close>

lemma step_timeLimit: "timeLimit (step e st) = timeLimit st"
  by (cases e) (simp_all add: timerTick_def timeLimit_def solvedEffect_fields handleTileClick_fields)

lemma step_cases:
  "status st = SOLVED \<Longrightarrow> status (step e st) = SOLVED"
  "status st = TIME_UP \<Longrightarrow> step e st = st"
  "status st = PLAYING \<Longrightarrow> step Tick st =
     (if timeLimit st \<le> time st + 1 then st\<lparr>status := TIME_UP, time := timeLimit st\<rparr>
      else st\<lparr>time := time st + 1\<rparr>)"
  "status st = PLAYING \<Longrightarrow> time (step (Click i) st) = time st \<and>
     (status (step (Click i) st) = PLAYING \<or> status (step (Click i) st) = SOLVED)"
  by (cases e; simp add: timerTick_def solvedEffect_def handleTileClick_def Let_def)+

lemma ticks_run:
  assumes "status st = PLAYING" "time st = 0" "0 < timeLimit st"
  shows "tickState st (count_list es Tick) (fold step es st) \<and> timeLimit (fold step es st) = timeLimit st"
proof (induction es rule: rev_induct)
  case Nil
  show ?case using assms by (simp add: tickState_def)
next
  case (snoc e es)
  let ?st' = "fold step es st" and ?n = "count_list es Tick"
  from snoc have ts: "tickState st ?n ?st'" and tl: "timeLimit ?st' = timeLimit st" by simp_all
  have tl': "timeLimit (step e ?st') = timeLimit st" by (simp add: step_timeLimit tl)
  have "tickState st (count_list (es @ [e]) Tick) (step e ?st')"
  proof (cases "status ?st'")
    case SELECTING
    with ts show ?thesis by (simp add: tickState_def)
  next
    case SOLVED
    then show ?thesis by (simp add: tickState_def step_cases(1))
  next
    case TIME_UP
    with ts have "timeLimit st \<le> int ?n" "time ?st' = timeLimit st" by (simp_all add: tickState_def)
    with TIME_UP show ?thesis by (simp add: tickState_def step_cases(2))
  next
    case PLAYING
    with ts have n: "int ?n < timeLimit st" "time ?st' = int ?n" by (simp_all add: tickState_def)
    show ?thesis
    proof (cases e)
      case Tick
      with PLAYING n tl show ?thesis by (auto simp: tickState_def timerTick_def)
    next
      case (Click i)
      with step_cases(4) [OF PLAYING, of i] n show ?thesis by (auto simp: tickState_def)
    qed
  qed
  with tl' show ?case by simp
qed

lemma run90: "status (fold step (replicate 90 Tick) playing3) \<noteq> SOLVED"
  by code_simp

lemma run89: "status (fold step (Click 7 # replicate 89 Tick) playing3) \<noteq> SOLVED"
  by code_simp

section \<open>The board invariant in words\<close>

lemma count_solved:
  "count (mset (map Num [1..n]) + {#Null#}) a =
     (if a = Null \<or> a \<in> Num ` {1..n} then 1 else 0)"
proof -
  have "distinct (map Num [1..n])" by (simp add: distinct_map inj_on_def)
  then have "count (mset (map Num [1..n])) a = (if a \<in> set (map Num [1..n]) then 1 else 0)"
    by (simp only: distinct_count_atmost_1)
  then show ?thesis by auto
qed

lemma boardInvariant_iff:
  assumes "s \<noteq> 0"
  shows "boardInvariant s b \<longleftrightarrow>
     int (length (elems b)) = s * s \<and> count_list (elems b) Null = 1 \<and>
     (\<forall>v \<in> {1..s * s - 1}. count_list (elems b) (Num v) = 1)"
    (is "_ \<longleftrightarrow> ?R")
proof
  assume bi: "boardInvariant s b"
  have "\<forall>v \<in> {1..s * s - 1}. count_list (elems b) (Num v) = 1"
  proof
    fix v assume v: "v \<in> {1..s * s - 1}"
    have "count_list (elems b) (Num v) = count (mset (elems b)) (Num v)" by (simp add: count_mset)
    also have "\<dots> = count (mset (map Num [1..s * s - 1]) + {#Null#}) (Num v)"
      using bi by (simp add: boardInvariant_def)
    also have "\<dots> = 1" using v by (simp only: count_solved) auto
    finally show "count_list (elems b) (Num v) = 1" .
  qed
  with boardInvariant_len [OF assms bi] boardInvariant_count_Null [OF bi] show ?R by simp
next
  assume r: ?R
  let ?M = "mset (elems b)" and ?S = "mset (map Num [1..s * s - 1]) + {#Null#}"
  have "0 < s * s" using assms by (cases "0 < s") (auto simp: zero_less_mult_iff)
  moreover from r have "int (length (elems b)) = s * s" by simp
  ultimately have "Suc (nat (s * s - 1)) = length (elems b)" by linarith
  then have sz: "size ?S = size ?M" by simp
  have "?S \<subseteq># ?M"
  proof (rule mset_subset_eqI)
    fix a
    show "count ?S a \<le> count ?M a"
    proof (cases "a = Null \<or> a \<in> Num ` {1..s * s - 1}")
      case False
      then show ?thesis by (simp only: count_solved) simp
    next
      case True
      then have "count_list (elems b) a = 1" using r by auto
      then have "count ?M a = 1" by (simp add: count_mset)
      with True show ?thesis by (simp only: count_solved) simp
    qed
  qed
  have "?S = ?M"
  proof (rule ccontr)
    assume "?S \<noteq> ?M"
    with \<open>?S \<subseteq># ?M\<close> have "?S \<subset># ?M" by (simp add: subset_mset.less_le)
    then have "size ?S < size ?M" by (rule mset_subset_size)
    with sz show False by simp
  qed
  then show "boardInvariant s b" by (simp add: boardInvariant_def)
qed

section \<open>The values of the alternating sequence\<close>

lemma backAndForth_values: "range backAndForth = {0, 3 / 8}"
proof
  show "range backAndForth \<subseteq> {0, 3 / 8}" by (auto simp: backAndForth_def)
  have "backAndForth 0 = 0" "backAndForth 1 = 3 / 8" by (simp_all add: backAndForth_def)
  then show "{0, 3 / 8} \<subseteq> range backAndForth" by (metis insert_subset empty_subsetI rangeI)
qed

section \<open>The walk, step by step\<close>

lemma specTargets_possibleMoves:
  assumes "0 < s" "0 \<le> e"
  shows "specTargets s e = map (\<lambda>d. (d, targetOf s e (Some d))) (possibleMoves s e)"
  using js_rem_nonneg [OF assms(2,1)]
  by (simp add: specTargets_def possibleMoves_def targetOf_def Let_def)

lemma shuffleStep_specStep:
  assumes "2 \<le> s" "mathRandom r" "walkInv s st"
  shows "shuffleStep s r st = specStep s r st"
proof -
  let ?b = "fst st" and ?e = "snd st"
  let ?pm = "possibleMoves s ?e"
  let ?i = "nat (floorOfProduct r (length ?pm))"
  let ?t = "targetOf s ?e (pickMove ?pm r)"
  from assms(3) have inv: "boardInvariant s ?b" "0 \<le> ?e" "?e < s * s"
    by (simp_all add: walkInv_def)
  have s: "0 < s" "s \<noteq> 0" using assms(1) by simp_all
  have ne: "?pm \<noteq> []" using assms(1) by (rule possibleMoves_nonempty)
  from pickMove_in [OF ne possibleMoves_length assms(2)]
  have i: "?i < length ?pm" and pick: "pickMove ?pm r = Some (?pm ! ?i)" by simp_all
  have ts: "specTargets s ?e = map (\<lambda>d. (d, targetOf s ?e (Some d))) ?pm"
    using s(1) inv(2) by (rule specTargets_possibleMoves)
  have tgt: "snd (specTargets s ?e ! nat (floorOfProduct r (length (specTargets s ?e)))) = ?t"
    using i by (simp add: ts pick)
  from target_legal [OF assms(1) inv(2,3) assms(2)] have t: "0 \<le> ?t" "?t < s * s" by simp_all
  have len: "int (length (elems ?b)) = s * s" using s(2) inv(1) by (rule boardInvariant_len)
  have "arr_swap ?b ?e ?t =
      ?b\<lparr>elems := (elems ?b)[nat ?e := elems ?b ! nat ?t, nat ?t := elems ?b ! nat ?e]\<rparr>"
    using inv(2,3) t len by (intro arr_swap_in) simp_all
  then show ?thesis
    by (simp add: shuffleStep_def specStep_def Let_def tgt)
qed

lemma walk_fold:
  assumes "2 \<le> s" "\<forall>n. mathRandom (rnd n)"
  shows "walkInv s st \<Longrightarrow> walk rnd s k n st = fold (specStep s) (map rnd [k..<k + n]) st"
proof (induction n arbitrary: k st)
  case 0
  show ?case by simp
next
  case (Suc n)
  have r: "mathRandom (rnd k)" using assms(2) by simp
  have eq: "shuffleStep s (rnd k) st = specStep s (rnd k) st"
    using assms(1) r Suc.prems by (rule shuffleStep_specStep)
  have inv: "walkInv s (shuffleStep s (rnd k) st)"
    using assms(1) r Suc.prems by (rule walkInv_step(1))
  have "[k..<k + Suc n] = k # [Suc k..<Suc k + n]" by (simp add: upt_conv_Cons)
  then have "fold (specStep s) (map rnd [k..<k + Suc n]) st
      = fold (specStep s) (map rnd [Suc k..<Suc k + n]) (specStep s (rnd k) st)"
    by simp
  also have "\<dots> = walk rnd s (Suc k) n (shuffleStep s (rnd k) st)"
    using Suc.IH [OF inv, of "Suc k"] eq by simp
  finally show ?case by simp
qed

lemma specTargets_legal:
  assumes "2 \<le> s" "0 \<le> e" "e < s * s"
  shows "specTargets s e \<noteq> []
     \<and> (\<forall>p \<in> set (specTargets s e). 0 \<le> snd p \<and> snd p < s * s \<and> manhattan s (snd p) e = 1)"
proof -
  have s: "0 < s" using assms(1) by simp
  have ne: "specTargets s e \<noteq> []"
    using assms(1) by (auto simp: specTargets_def Let_def)
  have "\<forall>p \<in> set (specTargets s e). 0 \<le> snd p \<and> snd p < s * s \<and> manhattan s (snd p) e = 1"
    using slot_down [OF s assms(2,3)] slot_up [OF s assms(2,3)]
      slot_left [OF s assms(2,3)] slot_right [OF s assms(2,3)]
    by (auto simp: specTargets_def Let_def split: if_splits)
  with ne show ?thesis by simp
qed

lemma roundingPoint_near:
  "roundingPoint 0 = 0" "k \<in> {1, 2, 3, 4} \<Longrightarrow> of_nat k - 1 / 2 ^ 52 \<le> roundingPoint k"
  "k \<in> {1, 2, 3, 4} \<Longrightarrow> roundingPoint k < of_nat k"
  by (auto simp: roundingPoint_def)

lemma floorOfProduct_band:
  assumes "i \<in> {0, 1, 2, 3}" "roundingPoint i \<le> r * of_nat n" "r * of_nat n < roundingPoint (Suc i)"
  shows "floorOfProduct r n = int i"
proof -
  from assms(1) consider "i = 0" | "i = 1" | "i = 2" | "i = 3" by auto
  then show ?thesis
  proof cases
    case 1
    with assms(2,3) have "0 \<le> r * of_nat n" "r * of_nat n < 1 - 1 / 2 ^ 54"
      by (simp_all add: roundingPoint_def)
    then show ?thesis using 1 by (simp add: floorOfProduct_def Let_def floor_eq_iff)
  next
    case 2
    with assms(2,3) have b: "1 - 1 / 2 ^ 54 \<le> r * of_nat n" "r * of_nat n < 2 - 1 / 2 ^ 53"
      by (simp_all add: roundingPoint_def)
    show ?thesis
    proof (cases "r * of_nat n < 1")
      case True
      with b 2 show ?thesis by (simp add: floorOfProduct_def Let_def)
    next
      case False
      with b 2 show ?thesis by (simp add: floorOfProduct_def Let_def floor_eq_iff)
    qed
  next
    case 3
    with assms(2,3) have b: "2 - 1 / 2 ^ 53 \<le> r * of_nat n" "r * of_nat n < 3 - 1 / 2 ^ 52"
      by (simp_all add: roundingPoint_def)
    show ?thesis
    proof (cases "r * of_nat n < 2")
      case True
      with b 3 show ?thesis by (simp add: floorOfProduct_def Let_def)
    next
      case False
      with b 3 show ?thesis by (simp add: floorOfProduct_def Let_def floor_eq_iff)
    qed
  next
    case 4
    with assms(2,3) have b: "3 - 1 / 2 ^ 52 \<le> r * of_nat n" "r * of_nat n < 4 - 1 / 2 ^ 52"
      by (simp_all add: roundingPoint_def)
    show ?thesis
    proof (cases "r * of_nat n < 3")
      case True
      with b 4 show ?thesis by (simp add: floorOfProduct_def Let_def)
    next
      case False
      with b 4 show ?thesis by (simp add: floorOfProduct_def Let_def floor_eq_iff)
    qed
  qed
qed

lemma roundingPoint_mono: "i \<le> j \<Longrightarrow> j \<le> 4 \<Longrightarrow> roundingPoint i \<le> roundingPoint j"
proof -
  assume a: "i \<le> j" "j \<le> 4"
  then have "i \<in> {0, 1, 2, 3, 4}" "j \<in> {0, 1, 2, 3, 4}" by auto
  with a(1) show ?thesis by (auto simp: roundingPoint_def)
qed

lemma floorOfProduct_uniform:
  assumes "mathRandom r" "n \<in> {1, 2, 3, 4}" "i < n"
  shows "floorOfProduct r n = int i
     \<longleftrightarrow> roundingPoint i / of_nat n \<le> r \<and> r < roundingPoint (Suc i) / of_nat n"
proof -
  have n: "(0::rat) < of_nat n" using assms(2) by auto
  have bands: "roundingPoint i \<le> r * of_nat n \<and> r * of_nat n < roundingPoint (Suc i)
      \<longleftrightarrow> roundingPoint i / of_nat n \<le> r \<and> r < roundingPoint (Suc i) / of_nat n"
    using n by (simp add: pos_divide_le_eq pos_less_divide_eq)
  have i3: "i \<in> {0, 1, 2, 3}" using assms(2,3) by auto
  show ?thesis
  proof
    assume "roundingPoint i / of_nat n \<le> r \<and> r < roundingPoint (Suc i) / of_nat n"
    with bands have "roundingPoint i \<le> r * of_nat n" "r * of_nat n < roundingPoint (Suc i)" by simp_all
    with i3 show "floorOfProduct r n = int i" by (rule floorOfProduct_band)
  next
    assume f: "floorOfProduct r n = int i"
    have r: "0 \<le> r" "r \<le> 1 - 1 / 2 ^ 53" using assms(1) by (simp_all add: mathRandom_def)
    have lo: "roundingPoint 0 \<le> r * of_nat n" using r(1) by (simp add: roundingPoint_def)
    have "r * of_nat n \<le> (1 - 1 / 2 ^ 53) * of_nat n"
      using r(2) by (intro mult_right_mono) simp_all
    then have "r * of_nat n < roundingPoint n"
      using assms(2) by (auto simp: roundingPoint_def)
    moreover have "roundingPoint n \<le> roundingPoint 4"
      using assms(2) by (intro roundingPoint_mono) auto
    ultimately have hi: "r * of_nat n < roundingPoint 4" by simp
    have "\<exists>j \<in> {0, 1, 2, 3}. roundingPoint j \<le> r * of_nat n \<and> r * of_nat n < roundingPoint (Suc j)"
    proof (rule ccontr)
      assume c: "\<not> ?thesis"
      then have "r * of_nat n \<ge> roundingPoint (Suc 0)" using lo by (auto simp: not_less)
      with c have "r * of_nat n \<ge> roundingPoint (Suc 1)" by (auto simp: not_less)
      with c have "r * of_nat n \<ge> roundingPoint (Suc 2)" by (auto simp: not_less numeral_2_eq_2)
      with c have "r * of_nat n \<ge> roundingPoint (Suc 3)" by (auto simp: not_less numeral_3_eq_3)
      with hi show False by (simp add: eval_nat_numeral)
    qed
    then obtain j where j: "j \<in> {0, 1, 2, 3}" "roundingPoint j \<le> r * of_nat n"
      "r * of_nat n < roundingPoint (Suc j)" by blast
    from floorOfProduct_band [OF j] f have "j = i" by simp
    with j bands show "roundingPoint i / of_nat n \<le> r \<and> r < roundingPoint (Suc i) / of_nat n"
      by simp
  qed
qed

section \<open>Clicks on a board without an empty marker\<close>

text \<open>
  C10: on a board that holds no empty marker, a tile click returns the session as it was
  (board, move count and status), whatever the status, the size and the index clicked.
\<close>

theorem handleTileClick_no_blank:
  "Null \<notin> set (elems (board st)) \<Longrightarrow> handleTileClick tileIndex st = st"
  by (simp add: handleTileClick_def indexOf_absent)

theorem handleTileClick_no_blank_witness:
  "Null \<notin> set (elems (board (playing3\<lparr>board := \<lparr>elems = [Num 1, Num 2, Num 3, Num 4, Num 5,
       Num 6, Num 9, Num 7, Num 8], props = []\<rparr>\<rparr>)))
   \<and> handleTileClick 7 (playing3\<lparr>board := \<lparr>elems = [Num 1, Num 2, Num 3, Num 4, Num 5,
       Num 6, Num 9, Num 7, Num 8], props = []\<rparr>\<rparr>)
     = playing3\<lparr>board := \<lparr>elems = [Num 1, Num 2, Num 3, Num 4, Num 5,
       Num 6, Num 9, Num 7, Num 8], props = []\<rparr>\<rparr>"
proof -
  let ?st = "playing3\<lparr>board := \<lparr>elems = [Num 1, Num 2, Num 3, Num 4, Num 5,
       Num 6, Num 9, Num 7, Num 8], props = []\<rparr>\<rparr>"
  have h: "Null \<notin> set (elems (board ?st))" by simp
  from h handleTileClick_no_blank [OF h, of 7] show ?thesis by blast
qed

section \<open>isSolved recognises exactly the solved layout\<close>

text \<open>
  C2: \<open>isSolved\<close> holds of a board exactly when every slot from \<open>0\<close> to
  \<open>length - 2\<close> holds its index plus one and the last slot holds the empty marker, that is,
  exactly when the board is \<open>[1, 2, ..., length - 1, null]\<close>. A board is a sequence of
  slots; an array with no slot at all is covered when it carries no property (as the empty
  board of the initial session).
\<close>

theorem isSolved_iff:
  assumes "elems b \<noteq> [] \<or> props b = []"
  shows "(isSolved b \<longleftrightarrow>
            elems b \<noteq> [] \<and>
            (\<forall>i. int i \<le> int (length (elems b)) - 2 \<longrightarrow> elems b ! i = Num (int i + 1)) \<and>
            last (elems b) = Null)
       \<and> (isSolved b \<longleftrightarrow> elems b = map Num [1..int (length (elems b)) - 1] @ [Null])"
proof (cases "elems b = []")
  case True
  with assms have "props b = []" by simp
  with True have "\<not> isSolved b"
    unfolding isSolved_def by (subst isSolved_loop.simps) (simp add: arr_get_def)
  with True show ?thesis by simp
next
  case False
  have "isSolved b = isSolved_loop 0 \<lparr>elems = elems b, props = props b\<rparr>"
    by (cases b) (simp add: isSolved_def)
  also have "\<dots> \<longleftrightarrow> (\<forall>j. 0 \<le> j \<and> j < length (elems b) - 1 \<longrightarrow> elems b ! j = Num (int j + 1))
      \<and> last (elems b) = Null"
    using False by (intro isSolved_loop_iff) simp_all
  finally have loop: "isSolved b \<longleftrightarrow>
      (\<forall>j. j < length (elems b) - 1 \<longrightarrow> elems b ! j = Num (int j + 1)) \<and> last (elems b) = Null"
    by simp
  have idx: "\<And>i. int i \<le> int (length (elems b)) - 2 \<longleftrightarrow> i < length (elems b) - 1"
    using False by (cases "elems b") auto
  from loop solved_list_iff [OF False] False show ?thesis by (simp add: idx)
qed

theorem isSolved_iff_witness:
  "isSolved \<lparr>elems = [Num 1, Num 2, Num 3, Null], props = []\<rparr>
   \<and> \<not> isSolved \<lparr>elems = [Num 1, Num 3, Num 2, Null], props = []\<rparr>"
  using isSolved_iff [of "\<lparr>elems = [Num 1, Num 2, Num 3, Null], props = []\<rparr>", THEN conjunct2]
    isSolved_iff [of "\<lparr>elems = [Num 1, Num 3, Num 2, Null], props = []\<rparr>", THEN conjunct2]
  by (simp add: upto.simps)

section \<open>handleSolve\<close>

text \<open>
  C6: from any session whose size is not zero (every reachable session has size 3, 4 or 5),
  \<open>handleSolve\<close> sets the board to \<open>[1, 2, ..., size\<^sup>2 - 1, null]\<close> and the status to
  \<open>SOLVED\<close> and changes nothing else; the move count in particular stays as it was. The
  new board passes \<open>isSolved\<close>, and the effect that runs after the render leaves the
  session as it is.
\<close>

theorem handleSolve_forced_win:
  assumes "size_st st \<noteq> 0"
  shows "handleSolve st =
           st\<lparr>board := \<lparr>elems = map Num [1..size_st st * size_st st - 1] @ [Null], props = []\<rparr>,
              status := SOLVED\<rparr>
       \<and> status (handleSolve st) = SOLVED
       \<and> moves (handleSolve st) = moves st
       \<and> isSolved (board (handleSolve st))
       \<and> solvedEffect (handleSolve st) = handleSolve st"
proof -
  have "0 < size_st st * size_st st"
    using assms by (cases "0 < size_st st") (auto simp: zero_less_mult_iff)
  then have n: "1 \<le> size_st st * size_st st" by simp
  have "isSolved (board (handleSolve st))"
    using isSolved_solvedLayout [OF n] by (simp add: handleSolve_def)
  moreover have "handleSolve st =
           st\<lparr>board := \<lparr>elems = map Num [1..size_st st * size_st st - 1] @ [Null], props = []\<rparr>,
              status := SOLVED\<rparr>"
    using n by (simp add: handleSolve_def solvedLayout_elems)
  moreover have "status (handleSolve st) = SOLVED" "moves (handleSolve st) = moves st"
    "solvedEffect (handleSolve st) = handleSolve st"
    by (simp_all add: handleSolve_def solvedEffect_def)
  ultimately show ?thesis by blast
qed

theorem handleSolve_forced_win_witness:
  "handleSolve (playing3\<lparr>size_st := 4, moves := 17\<rparr>) =
     playing3\<lparr>size_st := 4, moves := 17,
       board := \<lparr>elems = [Num 1, Num 2, Num 3, Num 4, Num 5, Num 6, Num 7, Num 8, Num 9, Num 10,
                           Num 11, Num 12, Num 13, Num 14, Num 15, Null], props = []\<rparr>,
       status := SOLVED\<rparr>"
  using handleSolve_forced_win [of "playing3\<lparr>size_st := 4, moves := 17\<rparr>"]
  by (simp add: upto.simps)

section \<open>A click moves a tile only from a slot next to the empty one\<close>

text \<open>
  C3: while the status is \<open>PLAYING\<close>, a click on a slot of the board whose Manhattan
  distance to the slot of the empty marker is not 1 (the empty slot itself has distance 0)
  returns the session unchanged, so neither the board nor the move count changes; at
  distance exactly 1 the clicked slot and the empty slot exchange their contents and the move
  count goes up by one.
\<close>

theorem handleTileClick_adjacent_only:
  assumes "status st = PLAYING" "0 < size_st st"
    "0 \<le> tileIndex" "tileIndex < int (length (elems (board st)))"
    "Null \<in> set (elems (board st))"
  shows "(manhattan (size_st st) tileIndex (indexOf (elems (board st)) Null) \<noteq> 1 \<longrightarrow>
            handleTileClick tileIndex st = st)
       \<and> (manhattan (size_st st) tileIndex (indexOf (elems (board st)) Null) = 1 \<longrightarrow>
            handleTileClick tileIndex st =
              st\<lparr>board :=
                   \<lparr>elems = (elems (board st))
                      [nat tileIndex := Null,
                       nat (indexOf (elems (board st)) Null) := elems (board st) ! nat tileIndex],
                    props = []\<rparr>,
                 moves := moves st + 1\<rparr>)"
  using handleTileClick_slide [OF assms]
  by (simp add: slideTile_def spread_def)

theorem handleTileClick_adjacent_only_witness:
  "handleTileClick 7 playing3 =
     playing3\<lparr>board := \<lparr>elems = [Num 1, Num 2, Num 3, Num 4, Num 5, Num 6, Num 7, Null, Num 8],
                          props = []\<rparr>, moves := 1\<rparr>
   \<and> handleTileClick 6 playing3 = playing3
   \<and> handleTileClick 4 playing3 = playing3"
  using handleTileClick_adjacent_only [of playing3 7]
    handleTileClick_adjacent_only [of playing3 6]
    handleTileClick_adjacent_only [of playing3 4]
  by (simp add: playing3_def manhattan_def)

section \<open>Undoing a move\<close>

text \<open>
  C8 as it is written does not hold: after a legal move at \<open>tileIndex\<close> the empty marker
  is in that very slot, so a second click on \<open>tileIndex\<close> has distance 0 and does nothing;
  the board stays as the first move left it. On the 3 by 3 board with the empty marker in
  slot 6, two clicks on slot 7 leave tile 7 in slot 6.
\<close>

theorem click_same_slot_counterexample:
  "status playing3 = PLAYING
   \<and> manhattan (size_st playing3) 7 (indexOf (elems (board playing3)) Null) = 1
   \<and> board (step (Click 7) playing3)
       = \<lparr>elems = [Num 1, Num 2, Num 3, Num 4, Num 5, Num 6, Num 7, Null, Num 8], props = []\<rparr>
   \<and> board (step (Click 7) (step (Click 7) playing3))
       = \<lparr>elems = [Num 1, Num 2, Num 3, Num 4, Num 5, Num 6, Num 7, Null, Num 8], props = []\<rparr>
   \<and> board (step (Click 7) (step (Click 7) playing3)) \<noteq> board playing3"
proof -
  have "step (Click 7) playing3 = almostSolved" by code_simp
  moreover have "step (Click 7) almostSolved = almostSolved" by code_simp
  ultimately show ?thesis
    by (simp add: almostSolved_def playing3_def manhattan_def)
qed

text \<open>
  C8, amended: a click is the handler followed by the effect that checks for the solved
  layout. On a playing board with exactly one empty marker, a legal move at \<open>tileIndex\<close>
  that does not solve the puzzle, followed by a click on the slot the empty marker was in
  (it now holds the moved tile), restores the slots of the original board, with the move
  count two higher; a second click on \<open>tileIndex\<close> itself changes nothing, and the board
  is then not the original one. A legal move that solves the puzzle sets the status to
  \<open>SOLVED\<close>, and every click after it is ignored.
\<close>

theorem click_back_restores:
  assumes "status st = PLAYING" "0 < size_st st"
    "0 \<le> tileIndex" "tileIndex < int (length (elems (board st)))"
    "count_list (elems (board st)) Null = 1"
    "manhattan (size_st st) tileIndex (indexOf (elems (board st)) Null) = 1"
  shows "(\<not> isSolved (board (handleTileClick tileIndex st)) \<longrightarrow>
            elems (board (step (Click (indexOf (elems (board st)) Null)) (step (Click tileIndex) st)))
              = elems (board st)
          \<and> moves (step (Click (indexOf (elems (board st)) Null)) (step (Click tileIndex) st))
              = moves st + 2
          \<and> step (Click tileIndex) (step (Click tileIndex) st) = step (Click tileIndex) st
          \<and> elems (board (step (Click tileIndex) (step (Click tileIndex) st))) \<noteq> elems (board st))
       \<and> (isSolved (board (handleTileClick tileIndex st)) \<longrightarrow>
            status (step (Click tileIndex) st) = SOLVED
          \<and> (\<forall>i. step (Click i) (step (Click tileIndex) st) = step (Click tileIndex) st))"
proof -
  let ?e = "indexOf (elems (board st)) Null"
  let ?st1 = "handleTileClick tileIndex st"
  note tw = click_twice [OF assms]
  have p1: "status ?st1 = PLAYING" using assms(1) by (simp add: handleTileClick_fields)
  have unsolved: "\<not> isSolved (board ?st1) \<longrightarrow>
            elems (board (step (Click ?e) (step (Click tileIndex) st))) = elems (board st)
          \<and> moves (step (Click ?e) (step (Click tileIndex) st)) = moves st + 2
          \<and> step (Click tileIndex) (step (Click tileIndex) st) = step (Click tileIndex) st
          \<and> elems (board (step (Click tileIndex) (step (Click tileIndex) st))) \<noteq> elems (board st)"
  proof
    assume u: "\<not> isSolved (board ?st1)"
    then have s1: "step (Click tileIndex) st = ?st1" by (simp add: solvedEffect_def)
    have a: "step (Click ?e) ?st1 = solvedEffect (st\<lparr>board := spread (board st), moves := moves st + 2\<rparr>)"
      by (simp add: tw(1))
    have b: "step (Click tileIndex) ?st1 = ?st1" using u by (simp add: tw(2) solvedEffect_def)
    from a have "elems (board (step (Click ?e) ?st1)) = elems (board st)"
      "moves (step (Click ?e) ?st1) = moves st + 2"
      by (simp_all add: solvedEffect_fields spread_def)
    with b tw(3) show "elems (board (step (Click ?e) (step (Click tileIndex) st))) = elems (board st)
          \<and> moves (step (Click ?e) (step (Click tileIndex) st)) = moves st + 2
          \<and> step (Click tileIndex) (step (Click tileIndex) st) = step (Click tileIndex) st
          \<and> elems (board (step (Click tileIndex) (step (Click tileIndex) st))) \<noteq> elems (board st)"
      by (simp only: s1) simp
  qed
  have solved: "isSolved (board ?st1) \<longrightarrow>
            status (step (Click tileIndex) st) = SOLVED
          \<and> (\<forall>i. step (Click i) (step (Click tileIndex) st) = step (Click tileIndex) st)"
  proof
    assume v: "isSolved (board ?st1)"
    with p1 have s1: "step (Click tileIndex) st = ?st1\<lparr>status := SOLVED\<rparr>"
      by (simp add: solvedEffect_def)
    have "\<forall>i. step (Click i) (?st1\<lparr>status := SOLVED\<rparr>) = ?st1\<lparr>status := SOLVED\<rparr>"
      by (simp add: handleTileClick_def solvedEffect_def)
    then show "status (step (Click tileIndex) st) = SOLVED
          \<and> (\<forall>i. step (Click i) (step (Click tileIndex) st) = step (Click tileIndex) st)"
      by (simp only: s1) simp
  qed
  from unsolved solved show ?thesis by blast
qed

theorem click_back_restores_witness:
  "elems (board (step (Click 6) (step (Click 7) playing3))) = elems (board playing3)
   \<and> moves (step (Click 6) (step (Click 7) playing3)) = 2
   \<and> step (Click 7) (step (Click 7) playing3) = step (Click 7) playing3
   \<and> status (step (Click 8) almostSolved) = SOLVED
   \<and> step (Click 7) (step (Click 8) almostSolved) = step (Click 8) almostSolved"
proof -
  have h: "status playing3 = PLAYING" "0 < size_st playing3" "(0::int) \<le> 7"
    "7 < int (length (elems (board playing3)))" "count_list (elems (board playing3)) Null = 1"
    "manhattan (size_st playing3) 7 (indexOf (elems (board playing3)) Null) = 1"
    by (simp_all add: playing3_def manhattan_def)
  have e: "indexOf (elems (board playing3)) Null = 6" "moves playing3 = 0"
    by (simp_all add: playing3_def)
  have u: "\<not> isSolved (board (handleTileClick 7 playing3))" by code_simp
  have g: "status almostSolved = PLAYING" "0 < size_st almostSolved" "(0::int) \<le> 8"
    "8 < int (length (elems (board almostSolved)))"
    "count_list (elems (board almostSolved)) Null = 1"
    "manhattan (size_st almostSolved) 8 (indexOf (elems (board almostSolved)) Null) = 1"
    by (simp_all add: almostSolved_def playing3_def manhattan_def)
  have v: "isSolved (board (handleTileClick 8 almostSolved))" by code_simp
  from click_back_restores [OF h] u e click_back_restores [OF g] v show ?thesis by simp
qed

section \<open>Clicks with an index outside the board\<close>

text \<open>
  C9 as it is written does not hold: \<open>handleTileClick\<close> has no test of the range of
  \<open>tileIndex\<close>. With the empty marker in slot 6 of a 3 by 3 board (a session reached by
  starting a game), the index 9 has the coordinates \<open>(0, 3)\<close>, at distance 1 from the empty
  slot \<open>(0, 2)\<close>: the handler writes \<open>null\<close> to a tenth slot, \<open>undefined\<close> to slot 6
  and counts a move. With the empty marker in slot 0 (reached by two more clicks) the index
  \<open>-3\<close> has the coordinates \<open>(-0, -1)\<close>, again at distance 1.
\<close>

theorem click_outside_counterexample:
  "reachable playing3
   \<and> size_st playing3 * size_st playing3 \<le> 9
   \<and> handleTileClick 9 playing3 =
       playing3\<lparr>board := \<lparr>elems = [Num 1, Num 2, Num 3, Num 4, Num 5, Num 6, Undefined,
                                      Num 7, Num 8, Null], props = []\<rparr>, moves := 1\<rparr>
   \<and> reachable blankAtZero
   \<and> handleTileClick (- 3) blankAtZero =
       blankAtZero\<lparr>board := \<lparr>elems = [Undefined, Num 2, Num 3, Num 1, Num 5, Num 6, Num 4,
                                      Num 7, Num 8], props = [(- 3, Null)]\<rparr>, moves := 3\<rparr>"
proof -
  have "handleTileClick 9 playing3 =
       playing3\<lparr>board := \<lparr>elems = [Num 1, Num 2, Num 3, Num 4, Num 5, Num 6, Undefined,
                                      Num 7, Num 8, Null], props = []\<rparr>, moves := 1\<rparr>"
    by code_simp
  moreover have "handleTileClick (- 3) blankAtZero =
       blankAtZero\<lparr>board := \<lparr>elems = [Undefined, Num 2, Num 3, Num 1, Num 5, Num 6, Num 4,
                                      Num 7, Num 8], props = [(- 3, Null)]\<rparr>, moves := 3\<rparr>"
    by code_simp
  moreover have "size_st playing3 * size_st playing3 \<le> 9" by (simp add: playing3_def)
  ultimately show ?thesis using reachable_playing3 reachable_blankAtZero by blast
qed

text \<open>
  C9, amended: in every reachable session a click with an index below 0 or of at least
  \<open>size\<^sup>2\<close> leaves the session (board, move count, status) unchanged, also after the
  effect that follows the click, unless the index is the empty slot's index plus \<open>size\<close>,
  or the index is \<open>-size\<close> while the empty marker is in slot 0.
\<close>

theorem click_outside_noop:
  assumes "reachable st"
    "tileIndex < 0 \<or> size_st st * size_st st \<le> tileIndex"
    "tileIndex \<noteq> indexOf (elems (board st)) Null + size_st st"
    "\<not> (tileIndex = - size_st st \<and> indexOf (elems (board st)) Null = 0)"
  shows "handleTileClick tileIndex st = st \<and> step (Click tileIndex) st = st"
proof -
  from reachable_inv [OF assms(1)] have inv: "reachInv0 st"
    and uns: "status st = PLAYING \<longrightarrow> \<not> isSolved (board st)"
    by (simp_all add: reachInv_def)
  have eff: "solvedEffect st = st" using uns by (simp add: solvedEffect_def)
  have "handleTileClick tileIndex st = st"
  proof (cases "status st = PLAYING")
    case False
    then show ?thesis by (simp add: handleTileClick_def)
  next
    case True
    let ?s = "size_st st" and ?e = "indexOf (elems (board st)) Null"
    from inv True have s: "0 < ?s" and bi: "boardInvariant ?s (board st)"
      by (auto simp: reachInv0_def)
    have len: "int (length (elems (board st))) = ?s * ?s"
      using bi s by (intro boardInvariant_len) simp_all
    have "?e \<noteq> - 1" using bi by (intro indexOf_present boardInvariant_Null)
    then have e: "0 \<le> ?e" "?e < ?s * ?s"
      using indexOf_nth [of "elems (board st)" Null] len by simp_all
    from outside_not_adjacent [OF s e assms(2,3,4)]
    show ?thesis by (simp add: handleTileClick_def Let_def)
  qed
  with eff show ?thesis by simp
qed

theorem click_outside_noop_witness:
  "handleTileClick 10 playing3 = playing3 \<and> step (Click 10) playing3 = playing3
   \<and> handleTileClick (- 1) playing3 = playing3 \<and> step (Click (- 1)) playing3 = playing3"
proof -
  have a: "(10::int) < 0 \<or> size_st playing3 * size_st playing3 \<le> 10"
    "10 \<noteq> indexOf (elems (board playing3)) Null + size_st playing3"
    "\<not> (10 = - size_st playing3 \<and> indexOf (elems (board playing3)) Null = 0)"
    by (simp_all add: playing3_def)
  have b: "(- 1::int) < 0 \<or> size_st playing3 * size_st playing3 \<le> - 1"
    "- 1 \<noteq> indexOf (elems (board playing3)) Null + size_st playing3"
    "\<not> (- 1 = - size_st playing3 \<and> indexOf (elems (board playing3)) Null = 0)"
    by (simp_all add: playing3_def)
  from click_outside_noop [OF reachable_playing3 a] click_outside_noop [OF reachable_playing3 b]
  show ?thesis by blast
qed

section \<open>A start that gives no board\<close>

lemma backAndForth_range: "\<forall>n. mathRandom (backAndForth n)"
  by (simp add: backAndForth_def mathRandom_def)

lemma attempt_halves5: "attempt halves 5 0 = board playing5"
  by code_simp

lemma isSolved_playing5: "\<not> isSolved (board playing5)"
  by code_simp

lemma start_playing5:
  "handleGameStart halves 0 ''data:image/png;base64,AAAA'' 5 initial = playing5"
proof -
  have "shuffleBoard halves 5 0 = Some (board playing5)"
    using isSolved_playing5 by (subst shuffleBoard.simps) (simp add: attempt_halves5)
  then show ?thesis by (simp add: handleGameStart_def playing5_def initial_def)
qed

lemma reachable_playing5: "reachable playing5"
proof -
  have "reachable (solvedEffect (handleGameStart halves 0 ''data:image/png;base64,AAAA'' 5 initial))"
    using reach_initial _ _ _ halves_range
    by (rule reach_start) (simp_all add: initial_def)
  then show ?thesis using isSolved_playing5 by (simp add: start_playing5 solvedEffect_def)
qed

lemma reachable_ticks: "reachable st \<Longrightarrow> reachable (fold step (replicate n Tick) st)"
proof (induction n arbitrary: st)
  case 0
  then show ?case by simp
next
  case (Suc n)
  have "reachable (step Tick st)"
  proof (cases "status st = PLAYING")
    case True
    with Suc.prems show ?thesis by (rule reach_tick)
  next
    case False
    with Suc.prems show ?thesis by (simp add: timerTick_def)
  qed
  from Suc.IH [OF this] show ?case by simp
qed

lemma ticks_playing5:
  "fold step (replicate 250 Tick) playing5 = playing5\<lparr>status := TIME_UP, time := 250\<rparr>"
  by code_simp

lemma reachable_staleTimer: "reachable staleTimer"
proof -
  let ?img = "''data:image/png;base64,AAAA''"
  let ?up = "playing5\<lparr>status := TIME_UP, time := 250\<rparr>"
  have "reachable (fold step (replicate 250 Tick) playing5)"
    using reachable_playing5 by (rule reachable_ticks)
  then have up: "reachable ?up" by (simp only: ticks_playing5)
  have "reachable (handleNewGame ?up)" using up by (rule reach_newGame) simp
  then have "reachable (solvedEffect (handleGameStart backAndForth 0 ?img 3 (handleNewGame ?up)))"
    using _ _ _ backAndForth_range by (rule reach_start) (simp_all add: handleNewGame_def)
  moreover have "solvedEffect (handleGameStart backAndForth 0 ?img 3 (handleNewGame ?up)) = staleTimer"
    by (simp add: handleGameStart_def shuffleBoard_backAndForth handleNewGame_def solvedEffect_def
        staleTimer_def playing5_def)
  ultimately show ?thesis by simp
qed

section \<open>The timer\<close>

text \<open>
  C5 as it is written does not hold in every reachable state: \<open>handleGameStart\<close> sets the
  size before it calls \<open>shuffleBoard\<close>, and the elapsed time only after. A 5 by 5 game
  runs out of time at 250; after "new game", a start at level 3 whose shuffle gives no
  board leaves the selecting session with size 3, a time limit of 90, and the elapsed time
  still 250.
\<close>

theorem stale_timer_counterexample:
  "reachable staleTimer \<and> status staleTimer = SELECTING
   \<and> time staleTimer = 250 \<and> timeLimit staleTimer = 90
   \<and> timeLimit staleTimer < time staleTimer"
  using reachable_staleTimer by (simp add: staleTimer_def playing5_def timeLimit_def)

text \<open>
  C5, amended: the time limit is \<open>size\<^sup>2 \<times> 10\<close>. In every reachable session the elapsed
  time is at least 0, and at most the time limit whenever the status is not \<open>SELECTING\<close>. A
  tick changes nothing unless the status is \<open>PLAYING\<close>; while it is, a tick adds one to
  the elapsed time, and the status becomes \<open>TIME_UP\<close> exactly when the limit is reached.
  From a session that plays at time 0, after any run of ticks and tile clicks that has not
  solved the puzzle, the game still plays with the elapsed time equal to the number of ticks
  as long as that number is below the limit, and the status is \<open>TIME_UP\<close> with the elapsed
  time equal to the limit once the number of ticks has reached it.
\<close>

theorem timer_limit:
  assumes "reachable st"
  shows "timeLimit st = size_st st * size_st st * 10
       \<and> 0 \<le> time st \<and> (status st \<noteq> SELECTING \<longrightarrow> time st \<le> timeLimit st)
       \<and> (status st \<noteq> PLAYING \<longrightarrow> timerTick st = st)
       \<and> (status st = PLAYING \<longrightarrow>
            time (timerTick st) = time st + 1 \<and>
            status (timerTick st) = (if time st + 1 = timeLimit st then TIME_UP else PLAYING))
       \<and> (status st = PLAYING \<and> time st = 0 \<longrightarrow>
            (\<forall>es. status (fold step es st) \<noteq> SOLVED \<longrightarrow>
               (int (count_list es Tick) < timeLimit st \<longrightarrow>
                  status (fold step es st) = PLAYING \<and>
                  time (fold step es st) = int (count_list es Tick)) \<and>
               (timeLimit st \<le> int (count_list es Tick) \<longrightarrow>
                  status (fold step es st) = TIME_UP \<and>
                  time (fold step es st) = timeLimit st)))"
proof -
  from reachable_inv [OF assms] have inv: "reachInv0 st" by (simp add: reachInv_def)
  then have b: "0 \<le> time st" "status st \<noteq> SELECTING \<longrightarrow> time st \<le> timeLimit st"
    and p: "status st = PLAYING \<longrightarrow> time st < timeLimit st"
    and lim: "0 < timeLimit st"
    by (auto simp: reachInv0_def timeLimit_def)
  have idle: "status st \<noteq> PLAYING \<longrightarrow> timerTick st = st" by (simp add: timerTick_def)
  have tick: "status st = PLAYING \<longrightarrow>
            time (timerTick st) = time st + 1 \<and>
            status (timerTick st) = (if time st + 1 = timeLimit st then TIME_UP else PLAYING)"
    using p by (auto simp: timerTick_def)
  have run: "status st = PLAYING \<and> time st = 0 \<longrightarrow>
            (\<forall>es. status (fold step es st) \<noteq> SOLVED \<longrightarrow>
               (int (count_list es Tick) < timeLimit st \<longrightarrow>
                  status (fold step es st) = PLAYING \<and>
                  time (fold step es st) = int (count_list es Tick)) \<and>
               (timeLimit st \<le> int (count_list es Tick) \<longrightarrow>
                  status (fold step es st) = TIME_UP \<and>
                  time (fold step es st) = timeLimit st))"
  proof (intro impI allI)
    fix es
    assume a: "status st = PLAYING \<and> time st = 0" and u: "status (fold step es st) \<noteq> SOLVED"
    from a lim have "tickState st (count_list es Tick) (fold step es st)"
      using ticks_run [of st es] by simp
    with u show "(int (count_list es Tick) < timeLimit st \<longrightarrow>
                  status (fold step es st) = PLAYING \<and>
                  time (fold step es st) = int (count_list es Tick)) \<and>
               (timeLimit st \<le> int (count_list es Tick) \<longrightarrow>
                  status (fold step es st) = TIME_UP \<and>
                  time (fold step es st) = timeLimit st)"
      by (auto simp: tickState_def)
  qed
  have "timeLimit st = size_st st * size_st st * 10" by (simp add: timeLimit_def)
  with b idle tick run show ?thesis by blast
qed

theorem timer_limit_witness:
  "timeLimit playing3 = 90
   \<and> status (fold step (replicate 90 Tick) playing3) = TIME_UP
   \<and> time (fold step (replicate 90 Tick) playing3) = 90
   \<and> status (fold step (Click 7 # replicate 89 Tick) playing3) = PLAYING
   \<and> time (fold step (Click 7 # replicate 89 Tick) playing3) = 89"
proof -
  note t = timer_limit [OF reachable_playing3]
  have s: "status playing3 = PLAYING \<and> time playing3 = 0" by (simp add: playing3_def)
  have l: "timeLimit playing3 = 90" using t by (simp add: playing3_def)
  have c: "int (count_list (replicate 90 Tick) Tick) = 90"
    "int (count_list (Click 7 # replicate 89 Tick) Tick) = 89"
    by code_simp+
  from t s have r: "\<And>es. status (fold step es playing3) \<noteq> SOLVED \<Longrightarrow>
      (int (count_list es Tick) < timeLimit playing3 \<longrightarrow>
         status (fold step es playing3) = PLAYING \<and> time (fold step es playing3) = int (count_list es Tick)) \<and>
      (timeLimit playing3 \<le> int (count_list es Tick) \<longrightarrow>
         status (fold step es playing3) = TIME_UP \<and> time (fold step es playing3) = timeLimit playing3)"
    by blast
  from r [OF run90] r [OF run89] show ?thesis unfolding l c by simp
qed

section \<open>The board invariant is preserved\<close>

text \<open>
  C4: the board invariant (the slots hold the tile identifiers \<open>1 .. size\<^sup>2 - 1\<close>, each
  once, and exactly one empty marker) holds of every board \<open>shuffleBoard\<close> returns, is
  kept by a tile click on a slot of the board (the index the interface passes is
  \<open>board.indexOf(value)\<close>, always a slot of the board), and holds of the board
  \<open>handleSolve\<close> builds; so it holds in every reachable session once a game has been
  started. The last part spells the invariant out: \<open>size\<^sup>2\<close> slots, one empty marker, and
  each identifier from 1 to \<open>size\<^sup>2 - 1\<close> exactly once.
\<close>

theorem board_invariant_preserved:
  "(2 \<le> s \<and> (\<forall>n. mathRandom (rnd n)) \<and> shuffleBoard rnd s k = Some b
      \<longrightarrow> boardInvariant s b)
   \<and> (0 < size_st st \<and> boardInvariant (size_st st) (board st) \<and>
      0 \<le> tileIndex \<and> tileIndex < size_st st * size_st st
      \<longrightarrow> boardInvariant (size_st st) (board (handleTileClick tileIndex st)))
   \<and> (size_st st \<noteq> 0 \<longrightarrow> boardInvariant (size_st st) (board (handleSolve st)))
   \<and> (reachable st \<and> status st \<noteq> SELECTING \<longrightarrow> boardInvariant (size_st st) (board st))
   \<and> (s \<noteq> 0 \<longrightarrow>
        (boardInvariant s b \<longleftrightarrow>
           int (length (elems b)) = s * s \<and> count_list (elems b) Null = 1 \<and>
           (\<forall>v \<in> {1..s * s - 1}. count_list (elems b) (Num v) = 1)))"
proof -
  have a: "2 \<le> s \<and> (\<forall>n. mathRandom (rnd n)) \<and> shuffleBoard rnd s k = Some b
      \<longrightarrow> boardInvariant s b"
    using shuffleBoard_inv(1) by blast
  have b: "0 < size_st st \<and> boardInvariant (size_st st) (board st) \<and>
      0 \<le> tileIndex \<and> tileIndex < size_st st * size_st st
      \<longrightarrow> boardInvariant (size_st st) (board (handleTileClick tileIndex st))"
    using handleTileClick_boardInvariant by blast
  have c: "size_st st \<noteq> 0 \<longrightarrow> boardInvariant (size_st st) (board (handleSolve st))"
  proof
    assume "size_st st \<noteq> 0"
    then have "0 < size_st st * size_st st"
      by (cases "0 < size_st st") (auto simp: zero_less_mult_iff)
    then have "1 \<le> size_st st * size_st st" by simp
    then show "boardInvariant (size_st st) (board (handleSolve st))"
      by (simp add: handleSolve_def boardInvariant_solved)
  qed
  have d: "reachable st \<and> status st \<noteq> SELECTING \<longrightarrow> boardInvariant (size_st st) (board st)"
    using reachable_inv [of st] by (auto simp: reachInv_def reachInv0_def)
  from a b c d boardInvariant_iff [of s b] show ?thesis by blast
qed

theorem board_invariant_preserved_witness:
  "boardInvariant 3 (attempt halves 3 0)
   \<and> boardInvariant 3 (board (handleTileClick 7 playing3))
   \<and> boardInvariant 3 (board (handleSolve playing3))
   \<and> count_list (elems (board (handleTileClick 7 playing3))) Null = 1"
proof -
  have h1: "(2::int) \<le> 3 \<and> (\<forall>n. mathRandom (halves n))
      \<and> shuffleBoard halves 3 0 = Some (attempt halves 3 0)"
    using halves_range shuffleBoard_halves by simp
  have bi: "boardInvariant (size_st playing3) (board playing3)"
    by (simp add: playing3_def boardInvariant_def upto.simps)
  have h2: "0 < size_st playing3 \<and> boardInvariant (size_st playing3) (board playing3) \<and>
      (0::int) \<le> 7 \<and> 7 < size_st playing3 * size_st playing3"
    using bi by (simp add: playing3_def)
  have h3: "size_st playing3 \<noteq> 0" "size_st playing3 = 3" by (simp_all add: playing3_def)
  note t = board_invariant_preserved
    [of 3 halves 0 "attempt halves 3 0" playing3 7]
  note u = board_invariant_preserved
    [of 3 halves 0 "board (handleTileClick 7 playing3)" playing3 7]
  from t h1 h2 h3 have "boardInvariant 3 (attempt halves 3 0)"
    "boardInvariant 3 (board (handleTileClick 7 playing3))"
    "boardInvariant 3 (board (handleSolve playing3))" by simp_all
  moreover from this(2) u have "count_list (elems (board (handleTileClick 7 playing3))) Null = 1"
    by simp
  ultimately show ?thesis by blast
qed

section \<open>What shuffleBoard returns\<close>

text \<open>
  C1 as it is written does not hold for every sequence of random choices: \<open>shuffleBoard\<close>
  starts over whenever its walk ends on the solved layout, and the walk has an even number
  of steps. With the values \<open>0, 3/8, 0, 3/8, ...\<close> of \<^verbatim>\<open>Math.random()\<close> the empty
  marker goes from slot 8 to slot 5 and back, 45 times in each walk of 90 steps, so every
  walk ends solved and the function never returns.
\<close>

theorem shuffleBoard_never_returns_counterexample:
  "(3::int) \<in> {3, 4, 5} \<and> range backAndForth = {0, 3 / 8}
   \<and> isSolved (attempt backAndForth 3 0)
   \<and> shuffleBoard backAndForth 3 0 = None"
  using backAndForth_values attempt_backAndForth shuffleBoard_backAndForth by simp

text \<open>
  C1, amended: for every size in \<open>{3, 4, 5}\<close> and every sequence of random values in
  \<open>[0, 1)\<close>, \<open>shuffleBoard\<close> returns exactly when one of its successive walks (each of
  \<open>size\<^sup>2 \<times> 10\<close> draws) ends on a board that is not solved; and every board it returns
  is a permutation of the tile identifiers \<open>1 .. size\<^sup>2 - 1\<close> and one empty marker, is not
  solved, and is reached from the solved layout \<open>[1, ..., size\<^sup>2 - 1, null]\<close> by legal
  slides.
\<close>

theorem shuffleBoard_when_it_returns:
  assumes "s \<in> {3, 4, 5}" "\<forall>n. mathRandom (rnd n)"
  shows "((\<exists>b. shuffleBoard rnd s k = Some b)
            \<longleftrightarrow> (\<exists>j. \<not> isSolved (attempt rnd s (k + j * nat (s * s * 10)))))
       \<and> (\<forall>b. shuffleBoard rnd s k = Some b \<longrightarrow>
              boardInvariant s b \<and> \<not> isSolved b \<and> slides s (solvedLayout (s * s)) b)
       \<and> solvedLayout (s * s) = \<lparr>elems = map Num [1..s * s - 1] @ [Null], props = []\<rparr>"
proof -
  have s2: "2 \<le> s" using assms(1) by auto
  have "1 \<le> s * s" using assms(1) by auto
  then have l: "solvedLayout (s * s) = \<lparr>elems = map Num [1..s * s - 1] @ [Null], props = []\<rparr>"
    by (rule solvedLayout_elems)
  have r: "(\<exists>b. shuffleBoard rnd s k = Some b)
            \<longleftrightarrow> (\<exists>j. \<not> isSolved (attempt rnd s (k + j * nat (s * s * 10))))"
    using shuffleBoard_result [of rnd s k] shuffleBoard_returns [of rnd s k] by blast
  have p: "\<forall>b. shuffleBoard rnd s k = Some b \<longrightarrow>
              boardInvariant s b \<and> \<not> isSolved b \<and> slides s (solvedLayout (s * s)) b"
    using shuffleBoard_inv [OF s2 assms(2)] by blast
  from r p l show ?thesis by blast
qed

theorem shuffleBoard_when_it_returns_witness:
  "shuffleBoard halves 3 0 =
     Some \<lparr>elems = [Num 1, Num 2, Num 3, Num 4, Num 5, Num 6, Null, Num 7, Num 8], props = []\<rparr>
   \<and> boardInvariant 3 \<lparr>elems = [Num 1, Num 2, Num 3, Num 4, Num 5, Num 6, Null, Num 7, Num 8], props = []\<rparr>
   \<and> \<not> isSolved \<lparr>elems = [Num 1, Num 2, Num 3, Num 4, Num 5, Num 6, Null, Num 7, Num 8], props = []\<rparr>
   \<and> slides 3 \<lparr>elems = [Num 1, Num 2, Num 3, Num 4, Num 5, Num 6, Num 7, Num 8, Null], props = []\<rparr>
        \<lparr>elems = [Num 1, Num 2, Num 3, Num 4, Num 5, Num 6, Null, Num 7, Num 8], props = []\<rparr>"
proof -
  have h: "(3::int) \<in> {3, 4, 5}" by simp
  note t = shuffleBoard_when_it_returns [OF h halves_range, of 0]
  have e: "shuffleBoard halves 3 0 =
     Some \<lparr>elems = [Num 1, Num 2, Num 3, Num 4, Num 5, Num 6, Null, Num 7, Num 8], props = []\<rparr>"
    by (simp only: shuffleBoard_halves attempt_halves)
  have l: "solvedLayout (3 * 3) =
      \<lparr>elems = [Num 1, Num 2, Num 3, Num 4, Num 5, Num 6, Num 7, Num 8, Null], props = []\<rparr>"
    using t by (simp add: upto.simps)
  from t e show ?thesis unfolding l by simp
qed

section \<open>The walk is the one the specification describes\<close>

text \<open>
  C7: for a size of at least 2, the walk of \<open>shuffleBoard\<close> is the specified step
  (\<open>specStep\<close>: coordinates \<open>(index % size, index / size)\<close> of the empty slot; DOWN to
  \<open>index - size\<close> if \<open>y > 0\<close>, UP to \<open>index + size\<close> if \<open>y < size - 1\<close>, RIGHT to
  \<open>index - 1\<close> if \<open>x > 0\<close>, LEFT to \<open>index + 1\<close> if \<open>x < size - 1\<close>; one of them
  picked by the random value; the two slots swapped) folded over exactly \<open>size\<^sup>2 \<times> 10\<close>
  random values. Before and after every step the empty marker is in the slot the walk
  tracks, inside the board. Every enumerated target is a slot of the board at Manhattan
  distance 1 from the empty slot, and there is always at least one. The pick gives every
  direction the same share of the random values, as far as doubles allow: of \<open>n\<close> directions,
  the one with index \<open>i\<close> is picked exactly for the values from \<open>roundingPoint i / n\<close> up to,
  not including, \<open>roundingPoint (i + 1) / n\<close>, where \<open>roundingPoint k\<close> is \<open>k\<close> less at
  most \<^verbatim>\<open>2^-52\<close> (and 0 for 0). How \<^verbatim>\<open>Math.random()\<close> spreads its values is the
  engine's matter.
\<close>

theorem walk_as_specified:
  assumes "2 \<le> s" "\<forall>n. mathRandom (rnd n)"
  shows "attempt rnd s k =
           fst (fold (specStep s) (map rnd [k..<k + nat (s * s * 10)])
                  (solvedLayout (s * s), s * s - 1))
       \<and> int (length (map rnd [k..<k + nat (s * s * 10)])) = s * s * 10
       \<and> (\<forall>m. walkInv s (fold (specStep s) (map rnd [k..<k + m]) (solvedLayout (s * s), s * s - 1)))
       \<and> (\<forall>index. 0 \<le> index \<and> index < s * s \<longrightarrow>
             specTargets s index \<noteq> [] \<and>
             (\<forall>p \<in> set (specTargets s index).
                0 \<le> snd p \<and> snd p < s * s \<and> manhattan s (snd p) index = 1))
       \<and> (\<forall>n i r. mathRandom r \<and> n \<in> {1, 2, 3, 4} \<and> i < n \<longrightarrow>
             (floorOfProduct r n = int i
                \<longleftrightarrow> roundingPoint i / of_nat n \<le> r \<and> r < roundingPoint (Suc i) / of_nat n))
       \<and> roundingPoint 0 = 0
       \<and> (\<forall>k \<in> {1, 2, 3, 4}. of_nat k - 1 / 2 ^ 52 \<le> roundingPoint k \<and> roundingPoint k < of_nat k)"
proof -
  let ?init = "(solvedLayout (s * s), s * s - 1)"
  have init: "walkInv s ?init" using assms(1) by (intro walkInv_init) simp
  have w: "\<And>m. walk rnd s k m ?init = fold (specStep s) (map rnd [k..<k + m]) ?init"
    using walk_fold [OF assms init] by simp
  have a: "attempt rnd s k = fst (fold (specStep s) (map rnd [k..<k + nat (s * s * 10)]) ?init)"
    by (simp add: attempt_def Let_def w)
  have "0 \<le> s * s * 10" using assms(1) by simp
  then have b: "int (length (map rnd [k..<k + nat (s * s * 10)])) = s * s * 10" by simp
  have c: "\<forall>m. walkInv s (fold (specStep s) (map rnd [k..<k + m]) ?init)"
  proof
    fix m
    have "walkInv s (walk rnd s k m ?init)" using init by (rule walkInv_walk [OF assms])
    then show "walkInv s (fold (specStep s) (map rnd [k..<k + m]) ?init)" by (simp only: w)
  qed
  have d: "\<forall>index. 0 \<le> index \<and> index < s * s \<longrightarrow>
             specTargets s index \<noteq> [] \<and>
             (\<forall>p \<in> set (specTargets s index).
                0 \<le> snd p \<and> snd p < s * s \<and> manhattan s (snd p) index = 1)"
    using specTargets_legal [OF assms(1)] by blast
  have e: "\<forall>n i r. mathRandom r \<and> n \<in> {1, 2, 3, 4} \<and> i < n \<longrightarrow>
             (floorOfProduct r n = int i
                \<longleftrightarrow> roundingPoint i / of_nat n \<le> r \<and> r < roundingPoint (Suc i) / of_nat n)"
    using floorOfProduct_uniform by blast
  have f: "roundingPoint 0 = 0"
    "\<forall>k \<in> {1, 2, 3, 4}. of_nat k - 1 / 2 ^ 52 \<le> roundingPoint k \<and> roundingPoint k < of_nat k"
    using roundingPoint_near by blast+
  from a b c d e f show ?thesis by blast
qed

theorem walk_as_specified_witness:
  "fst (fold (specStep 3) (map halves [0..<0 + nat (3 * 3 * 10)]) (solvedLayout (3 * 3), 3 * 3 - 1))
     = \<lparr>elems = [Num 1, Num 2, Num 3, Num 4, Num 5, Num 6, Null, Num 7, Num 8], props = []\<rparr>
   \<and> int (length (map halves [0..<0 + nat (3 * 3 * 10)])) = 90
   \<and> specTargets 3 8 = [(DOWN, 5), (RIGHT, 7)]"
proof -
  have h: "(2::int) \<le> 3" by simp
  note t = walk_as_specified [OF h halves_range, of 0]
  from t have "fst (fold (specStep 3) (map halves [0..<0 + nat (3 * 3 * 10)]) (solvedLayout (3 * 3), 3 * 3 - 1))
      = attempt halves 3 0" by simp
  moreover from t have "int (length (map halves [0..<0 + nat (3 * 3 * 10)])) = 3 * 3 * 10" by blast
  moreover have "specTargets 3 8 = [(DOWN, 5), (RIGHT, 7)]" by (simp add: specTargets_def)
  ultimately show ?thesis by (simp only: attempt_halves) simp
qed

end
